theory Spec2Isabelle
  imports Complex_Main "HOL-Library.Word"
begin

section \<open>Data model of PhaseFairRWLock\<close>

text \<open>
  A \<open>WriterAlarmClock*\<close> is an optional address, \<open>None\<close> being \<open>nullptr\<close>.
  The alarm clocks that exist are numbered \<open>0, 1, ...\<close> in the order of their
  creation; \<open>nextf s ! a\<close> is the field \<open>next\<close> of the alarm clock at address \<open>a\<close>.
  The condition variable of an alarm clock is identified by the address of the clock.
\<close>

type_synonym addr = nat
type_synonym ptr = "addr option"

text \<open>
  The fields of the class, all guarded by \<open>_mutex\<close>. \<open>_readersRun\<close> and
  \<open>_readersWait\<close> are \<open>int32_t\<close> (read through \<open>sint\<close>, arithmetic wraps),
  \<open>_phase\<close> is \<open>uint8_t\<close>.
\<close>

record lock_state =
  readersRun :: "32 word"
  readersWait :: "32 word"
  sleepersStart :: ptr
  sleepersEnd :: ptr
  freeList :: ptr
  phase :: "8 word"
  nextf :: "ptr list"

text \<open>What can go wrong inside a critical section.\<close>

datatype fault = NullDeref | WildDeref | AssertFail

text \<open>The wake-ups a critical section sends: \<open>_cond.notify_all()\<close> and
  \<open>wac->cond.notify_one()\<close>.\<close>

datatype event = NotifyAllReaders | NotifyWriter addr

text \<open>The constructor.\<close>

definition init :: lock_state where
  "init = \<lparr> readersRun = 0, readersWait = 0, sleepersStart = None, sleepersEnd = None,
            freeList = None, phase = 0, nextf = [] \<rparr>"

text \<open>Reading and writing \<open>p->next\<close>.\<close>

fun ld_next :: "lock_state \<Rightarrow> ptr \<Rightarrow> fault + ptr" where
  "ld_next s None = Inl NullDeref"
| "ld_next s (Some a) = (if a < length (nextf s) then Inr (nextf s ! a) else Inl WildDeref)"

fun st_next :: "lock_state \<Rightarrow> ptr \<Rightarrow> ptr \<Rightarrow> fault + lock_state" where
  "st_next s None v = Inl NullDeref"
| "st_next s (Some a) v =
     (if a < length (nextf s) then Inr (s\<lparr>nextf := (nextf s)[a := v]\<rparr>) else Inl WildDeref)"

section \<open>Private helpers (called under the mutex)\<close>

definition getAlarmClock :: "lock_state \<Rightarrow> fault + (ptr \<times> lock_state)" where
  "getAlarmClock s =
     (let wac = freeList s in
      if wac \<noteq> None then
        (case ld_next s (freeList s) of
           Inl e \<Rightarrow> Inl e
         | Inr n \<Rightarrow>
             (case st_next (s\<lparr>freeList := n\<rparr>) wac None of
                Inl e \<Rightarrow> Inl e
              | Inr s' \<Rightarrow> Inr (wac, s')))
      else Inr (Some (length (nextf s)), s\<lparr>nextf := nextf s @ [None]\<rparr>))"

definition returnAlarmClock :: "ptr \<Rightarrow> lock_state \<Rightarrow> fault + lock_state" where
  "returnAlarmClock wac s =
     (if wac = None then Inl AssertFail
      else case st_next s wac (freeList s) of
             Inl e \<Rightarrow> Inl e
           | Inr s' \<Rightarrow> Inr (s'\<lparr>freeList := wac\<rparr>))"

text \<open>The scan of \<open>removeFromQueue\<close>; \<open>None\<close> is a scan that never ends.\<close>

partial_function (option) removeLoop :: "ptr \<Rightarrow> ptr \<Rightarrow> lock_state \<Rightarrow> (fault + lock_state) option"
where
  "removeLoop wac w s =
     (if w \<noteq> None then
        (case ld_next s w of
           Inl e \<Rightarrow> Some (Inl e)
         | Inr wn \<Rightarrow>
             if wn = wac then
               (case ld_next s wac of
                  Inl e \<Rightarrow> Some (Inl e)
                | Inr n \<Rightarrow>
                    (case st_next s w n of
                       Inl e \<Rightarrow> Some (Inl e)
                     | Inr s' \<Rightarrow> Some (Inr (if n = None then s'\<lparr>sleepersEnd := w\<rparr> else s'))))
             else removeLoop wac wn s)
      else Some (Inr s))"

definition removeFromQueue :: "ptr \<Rightarrow> lock_state \<Rightarrow> (fault + lock_state) option" where
  "removeFromQueue wac s =
     (if wac = sleepersStart s then
        (case ld_next s (sleepersStart s) of
           Inl e \<Rightarrow> Some (Inl e)
         | Inr n \<Rightarrow>
             Some (Inr (if n = None then s\<lparr>sleepersStart := n, sleepersEnd := None\<rparr>
                        else s\<lparr>sleepersStart := n\<rparr>)))
      else removeLoop wac (sleepersStart s) s)"

text \<open>\<open>notify_one\<close> on the condition variable of the head of the queue.\<close>

definition notifyHead :: "lock_state \<Rightarrow> fault + event list" where
  "notifyHead s =
     (case sleepersStart s of
        None \<Rightarrow> Inl NullDeref
      | Some a \<Rightarrow> if a < length (nextf s) then Inr [NotifyWriter a] else Inl WildDeref)"

definition unlockWriteWithMutex :: "lock_state \<Rightarrow> fault + (lock_state \<times> event list)" where
  "unlockWriteWithMutex s =
     (if phase s \<noteq> 3 then Inl AssertFail
      else if 0 < sint (readersWait s) then Inr (s\<lparr>phase := 0\<rparr>, [NotifyAllReaders])
      else if sleepersStart s \<noteq> None then
        (case notifyHead (s\<lparr>phase := 2\<rparr>) of
           Inl e \<Rightarrow> Inl e
         | Inr evs \<Rightarrow> Inr (s\<lparr>phase := 2\<rparr>, evs))
      else Inr (s\<lparr>phase := 0\<rparr>, []))"

definition unlockReadWithMutex :: "lock_state \<Rightarrow> fault + (lock_state \<times> event list)" where
  "unlockReadWithMutex s =
     (let s1 = s\<lparr>readersRun := readersRun s - 1\<rparr> in
      if readersRun s1 = 0 then
        (if phase s1 = 1 then
           (case notifyHead (s1\<lparr>phase := 2\<rparr>) of
              Inl e \<Rightarrow> Inl e
            | Inr evs \<Rightarrow> Inr (s1\<lparr>phase := 2\<rparr>, evs))
         else Inr (s1, []))
      else Inr (s1, []))"

section \<open>Public operations that never wait\<close>

definition tryWriteLock :: "lock_state \<Rightarrow> bool \<times> lock_state" where
  "tryWriteLock s =
     (if sleepersStart s \<noteq> None then (False, s)
      else if phase s = 0 \<and> readersRun s = 0 then (True, s\<lparr>phase := 3\<rparr>)
      else (False, s))"

definition tryReadLock :: "lock_state \<Rightarrow> bool \<times> lock_state" where
  "tryReadLock s =
     (if phase s = 0 then (True, s\<lparr>readersRun := readersRun s + 1\<rparr>)
      else (False, s))"

definition unlockWrite :: "lock_state \<Rightarrow> fault + (lock_state \<times> event list)" where
  "unlockWrite s = unlockWriteWithMutex s"

definition unlockRead :: "lock_state \<Rightarrow> fault + (lock_state \<times> event list)" where
  "unlockRead s = unlockReadWithMutex s"

definition unlock :: "lock_state \<Rightarrow> fault + (lock_state \<times> event list)" where
  "unlock s = (if phase s = 3 then unlockWriteWithMutex s else unlockReadWithMutex s)"

section \<open>Operations that may wait\<close>

text \<open>
  A waiting operation runs as a sequence of critical sections. One critical section runs
  from the acquisition of the mutex (at entry, or on waking inside a wait) to the
  release of the mutex (at return, or on going to sleep inside a wait). It ends either
  with the operation returning, or with the thread asleep in a wait; then the rest of
  the operation, with the values of its local variables, is what the thread does when it
  wakes up.
\<close>

datatype ('r, 'k) outcome = Returned 'r | Blocked 'k

text \<open>What \<open>condition_variable::wait_until(lock, abs_time)\<close> reports on waking.\<close>

datatype cv_status = NoTimeout | Timeout

text \<open>Where a reader sleeps: in \<open>readLock\<close>, or in \<open>tryReadLock(timeout)\<close> with its
  local variable \<open>deadline\<close>.\<close>

datatype rwait = AwaitReading

datatype rwait_timed = AwaitReadingUntil real

text \<open>Where a writer sleeps, with its local variables \<open>wac\<close> and \<open>deadline\<close>: in the
  first wait (for \<open>wac == _sleepersStart\<close>) or in the second (for \<open>_phase == 2\<close>).\<close>

datatype wwait = AwaitHead ptr | AwaitHandoff ptr

datatype wwait_timed = AwaitHeadUntil ptr real | AwaitHandoffUntil ptr real

subsection \<open>readLock\<close>

text \<open>\<open>_cond.wait(guard, pred)\<close> is \<open>while (!pred()) wait(guard)\<close>: the predicate
  is evaluated under the mutex at entry and after every wake-up.\<close>

definition readLock_wait :: "lock_state \<Rightarrow> (unit, rwait) outcome \<times> lock_state" where
  "readLock_wait s =
     (if phase s = 0 then
        (Returned (), s\<lparr>readersWait := readersWait s - 1, readersRun := readersRun s + 1\<rparr>)
      else (Blocked AwaitReading, s))"

definition readLock :: "lock_state \<Rightarrow> (unit, rwait) outcome \<times> lock_state" where
  "readLock s =
     (if phase s = 0 then (Returned (), s\<lparr>readersRun := readersRun s + 1\<rparr>)
      else readLock_wait (s\<lparr>readersWait := readersWait s + 1\<rparr>))"

subsection \<open>tryReadLock(timeout)\<close>

text \<open>
  \<open>wait_until(guard, deadline, pred)\<close> is
  \<open>while (!pred()) if (wait_until(guard, deadline) == timeout) return pred(); return true\<close>.
  The first argument is \<open>None\<close> at the entry of the wait and the status of the inner
  wait after a wake-up.
\<close>

definition tryReadLock_timed_wait ::
  "cv_status option \<Rightarrow> real \<Rightarrow> lock_state \<Rightarrow> (bool, rwait_timed) outcome \<times> lock_state" where
  "tryReadLock_timed_wait st deadline s =
     (if phase s = 0 then
        (Returned True, s\<lparr>readersWait := readersWait s - 1, readersRun := readersRun s + 1\<rparr>)
      else if st = Some Timeout then
        (Returned False, s\<lparr>readersWait := readersWait s - 1\<rparr>)
      else (Blocked (AwaitReadingUntil deadline), s))"

text \<open>\<open>now\<close> is what \<open>_clock.now()\<close> returns, if it is called.\<close>

definition tryReadLock_timed ::
  "real \<Rightarrow> real \<Rightarrow> lock_state \<Rightarrow> (bool, rwait_timed) outcome \<times> lock_state" where
  "tryReadLock_timed timeout now s =
     (if phase s = 0 then (Returned True, s\<lparr>readersRun := readersRun s + 1\<rparr>)
      else
        (let deadline = now + timeout in
         tryReadLock_timed_wait None deadline (s\<lparr>readersWait := readersWait s + 1\<rparr>)))"

text \<open>A reader asleep in \<open>readLock\<close> wakes up (notified or spuriously); a reader asleep
  in \<open>tryReadLock(timeout)\<close> wakes up, the inner wait reporting \<open>st\<close>.\<close>

fun readLock_wake :: "rwait \<Rightarrow> lock_state \<Rightarrow> (unit, rwait) outcome \<times> lock_state" where
  "readLock_wake AwaitReading s = readLock_wait s"

fun tryReadLock_timed_wake ::
  "rwait_timed \<Rightarrow> cv_status \<Rightarrow> lock_state \<Rightarrow> (bool, rwait_timed) outcome \<times> lock_state" where
  "tryReadLock_timed_wake (AwaitReadingUntil deadline) st s =
     tryReadLock_timed_wait (Some st) deadline s"

subsection \<open>writeLock\<close>

text \<open>A critical section of a writer returns \<open>None\<close> if it never ends (the scan of
  \<open>removeFromQueue\<close>), a fault, or its outcome with the new state and the wake-ups sent.\<close>

type_synonym ('r, 'k) wstep = "(fault + (('r, 'k) outcome \<times> lock_state \<times> event list)) option"

definition writeLock_acquire :: "ptr \<Rightarrow> lock_state \<Rightarrow> (unit, wwait) wstep" where
  "writeLock_acquire wac s =
     (let s1 = s\<lparr>phase := 3\<rparr> in
      if wac \<noteq> sleepersStart s1 then Some (Inl AssertFail)
      else
        (case removeFromQueue wac s1 of
           None \<Rightarrow> None
         | Some (Inl e) \<Rightarrow> Some (Inl e)
         | Some (Inr s2) \<Rightarrow>
             (case returnAlarmClock wac s2 of
                Inl e \<Rightarrow> Some (Inl e)
              | Inr s3 \<Rightarrow> Some (Inr (Returned (), s3, [])))))"

definition writeLock_waitHandoff :: "ptr \<Rightarrow> lock_state \<Rightarrow> (unit, wwait) wstep" where
  "writeLock_waitHandoff wac s =
     (if phase s = 2 then writeLock_acquire wac s
      else Some (Inr (Blocked (AwaitHandoff wac), s, [])))"

definition writeLock_atHead :: "ptr \<Rightarrow> lock_state \<Rightarrow> (unit, wwait) wstep" where
  "writeLock_atHead wac s =
     (if wac \<noteq> sleepersStart s then Some (Inl AssertFail)
      else writeLock_waitHandoff wac (if phase s = 0 then s\<lparr>phase := 1\<rparr> else s))"

definition writeLock_waitHead :: "ptr \<Rightarrow> lock_state \<Rightarrow> (unit, wwait) wstep" where
  "writeLock_waitHead wac s =
     (if wac = sleepersStart s then writeLock_atHead wac s
      else Some (Inr (Blocked (AwaitHead wac), s, [])))"

definition writeLock :: "lock_state \<Rightarrow> (unit, wwait) wstep" where
  "writeLock s =
     (if phase s = 0 \<and> readersRun s = 0 then Some (Inr (Returned (), s\<lparr>phase := 3\<rparr>, []))
      else
        (case getAlarmClock s of
           Inl e \<Rightarrow> Some (Inl e)
         | Inr (wac, s1) \<Rightarrow>
             if sleepersStart s1 \<noteq> None then
               (if sleepersEnd s1 = None then Some (Inl AssertFail)
                else
                  (case st_next s1 (sleepersEnd s1) wac of
                     Inl e \<Rightarrow> Some (Inl e)
                   | Inr s2 \<Rightarrow> writeLock_waitHead wac (s2\<lparr>sleepersEnd := wac\<rparr>)))
             else
               (if sleepersEnd s1 \<noteq> None then Some (Inl AssertFail)
                else writeLock_atHead wac (s1\<lparr>sleepersStart := wac, sleepersEnd := wac\<rparr>))))"

subsection \<open>tryWriteLock(timeout)\<close>

definition tryWriteLock_timed_acquire :: "ptr \<Rightarrow> lock_state \<Rightarrow> (bool, wwait_timed) wstep" where
  "tryWriteLock_timed_acquire wac s =
     (let s1 = s\<lparr>phase := 3\<rparr> in
      case removeFromQueue wac s1 of
        None \<Rightarrow> None
      | Some (Inl e) \<Rightarrow> Some (Inl e)
      | Some (Inr s2) \<Rightarrow>
          (case returnAlarmClock wac s2 of
             Inl e \<Rightarrow> Some (Inl e)
           | Inr s3 \<Rightarrow> Some (Inr (Returned True, s3, []))))"

text \<open>The second wait, and the repair when it times out.\<close>

definition tryWriteLock_timed_waitHandoff ::
  "cv_status option \<Rightarrow> ptr \<Rightarrow> real \<Rightarrow> lock_state \<Rightarrow> (bool, wwait_timed) wstep" where
  "tryWriteLock_timed_waitHandoff st wac deadline s =
     (if phase s = 2 then tryWriteLock_timed_acquire wac s
      else if st = Some Timeout then
        (case removeFromQueue wac s of
           None \<Rightarrow> None
         | Some (Inl e) \<Rightarrow> Some (Inl e)
         | Some (Inr s1) \<Rightarrow>
             if phase s1 = 1 \<and> sleepersStart s1 = None then
               Some (Inr (Returned False, s1\<lparr>phase := 0\<rparr>,
                          if 0 < sint (readersWait s1) then [NotifyAllReaders] else []))
             else Some (Inr (Returned False, s1, [])))
      else Some (Inr (Blocked (AwaitHandoffUntil wac deadline), s, [])))"

text \<open>From \<open>assert(wac == _sleepersStart)\<close> on; \<open>now\<close> is what the second
  \<open>_clock.now()\<close> returns.\<close>

definition tryWriteLock_timed_atHead :: "ptr \<Rightarrow> real \<Rightarrow> real \<Rightarrow> lock_state \<Rightarrow> (bool, wwait_timed) wstep" where
  "tryWriteLock_timed_atHead wac deadline now s =
     (if wac \<noteq> sleepersStart s then Some (Inl AssertFail)
      else if now > deadline then
        (case removeFromQueue wac s of
           None \<Rightarrow> None
         | Some (Inl e) \<Rightarrow> Some (Inl e)
         | Some (Inr s1) \<Rightarrow> Some (Inr (Returned False, s1, [])))
      else
        tryWriteLock_timed_waitHandoff None wac deadline
          (if phase s = 0 then s\<lparr>phase := 1\<rparr> else s))"

text \<open>The first wait.\<close>

definition tryWriteLock_timed_waitHead ::
  "cv_status option \<Rightarrow> ptr \<Rightarrow> real \<Rightarrow> real \<Rightarrow> lock_state \<Rightarrow> (bool, wwait_timed) wstep" where
  "tryWriteLock_timed_waitHead st wac deadline now s =
     (if wac = sleepersStart s then tryWriteLock_timed_atHead wac deadline now s
      else if st = Some Timeout then
        (case removeFromQueue wac s of
           None \<Rightarrow> None
         | Some (Inl e) \<Rightarrow> Some (Inl e)
         | Some (Inr s1) \<Rightarrow> Some (Inr (Returned False, s1, [])))
      else Some (Inr (Blocked (AwaitHeadUntil wac deadline), s, [])))"

text \<open>The entry; \<open>now0\<close> and \<open>now1\<close> are what the first and the second call of
  \<open>_clock.now()\<close> return, if they are made.\<close>

definition tryWriteLock_timed :: "real \<Rightarrow> real \<Rightarrow> real \<Rightarrow> lock_state \<Rightarrow> (bool, wwait_timed) wstep" where
  "tryWriteLock_timed timeout now0 now1 s =
     (if phase s = 0 \<and> readersRun s = 0 then Some (Inr (Returned True, s\<lparr>phase := 3\<rparr>, []))
      else
        (case getAlarmClock s of
           Inl e \<Rightarrow> Some (Inl e)
         | Inr (wac, s1) \<Rightarrow>
             (let deadline = now0 + timeout in
              if sleepersStart s1 \<noteq> None then
                (case st_next s1 (sleepersEnd s1) wac of
                   Inl e \<Rightarrow> Some (Inl e)
                 | Inr s2 \<Rightarrow>
                     tryWriteLock_timed_waitHead None wac deadline now1 (s2\<lparr>sleepersEnd := wac\<rparr>))
              else
                (if sleepersEnd s1 \<noteq> None then Some (Inl AssertFail)
                 else tryWriteLock_timed_atHead wac deadline now1
                        (s1\<lparr>sleepersStart := wac, sleepersEnd := wac\<rparr>)))))"

text \<open>A writer asleep in \<open>writeLock\<close> wakes up; a writer asleep in
  \<open>tryWriteLock(timeout)\<close> wakes up, the inner wait reporting \<open>st\<close>, and \<open>now\<close> is
  what \<open>_clock.now()\<close> returns if it is called in this critical section.\<close>

fun writeLock_wake :: "wwait \<Rightarrow> lock_state \<Rightarrow> (unit, wwait) wstep" where
  "writeLock_wake (AwaitHead wac) s = writeLock_waitHead wac s"
| "writeLock_wake (AwaitHandoff wac) s = writeLock_waitHandoff wac s"

fun tryWriteLock_timed_wake ::
  "wwait_timed \<Rightarrow> cv_status \<Rightarrow> real \<Rightarrow> lock_state \<Rightarrow> (bool, wwait_timed) wstep" where
  "tryWriteLock_timed_wake (AwaitHeadUntil wac deadline) st now s =
     tryWriteLock_timed_waitHead (Some st) wac deadline now s"
| "tryWriteLock_timed_wake (AwaitHandoffUntil wac deadline) st now s =
     tryWriteLock_timed_waitHandoff (Some st) wac deadline s"

section \<open>The queue and the free-list as lists of alarm clocks\<close>

text \<open>
  \<open>chain h p xs q\<close>: following \<open>next\<close> from the pointer \<open>p\<close> visits exactly the alarm
  clocks \<open>xs\<close>, all of them existing, and arrives at the pointer \<open>q\<close>.
\<close>

fun chain :: "ptr list \<Rightarrow> ptr \<Rightarrow> addr list \<Rightarrow> ptr \<Rightarrow> bool" where
  "chain h p [] q = (p = q)"
| "chain h p (a # as) q = (p = Some a \<and> a < length h \<and> chain h (h ! a) as q)"

text \<open>The sleeper queue holds the alarm clocks \<open>xs\<close>, head first: \<open>_sleepersStart\<close> leads
  through \<open>xs\<close> to \<open>nullptr\<close>, and \<open>_sleepersEnd\<close> is the last of them (\<open>nullptr\<close> when
  there is none).\<close>

definition queue_of :: "lock_state \<Rightarrow> addr list \<Rightarrow> bool" where
  "queue_of s xs =
     (chain (nextf s) (sleepersStart s) xs None
      \<and> sleepersEnd s = (if xs = [] then None else Some (last xs)))"

text \<open>The queue is \<open>xs\<close>, the free-list is \<open>fs\<close>, and no alarm clock is in both.\<close>

definition lock_lists :: "lock_state \<Rightarrow> addr list \<Rightarrow> addr list \<Rightarrow> bool" where
  "lock_lists s xs fs =
     (queue_of s xs \<and> chain (nextf s) (freeList s) fs None \<and> set xs \<inter> set fs = {})"

text \<open>The alarm clock \<open>getAlarmClock\<close> hands out: the head of the free-list, or a new one.\<close>

definition node_for :: "lock_state \<Rightarrow> addr list \<Rightarrow> addr" where
  "node_for s fs = (case fs of [] \<Rightarrow> length (nextf s) | f # _ \<Rightarrow> f)"

definition same_readers :: "lock_state \<Rightarrow> lock_state \<Rightarrow> bool" where
  "same_readers s s' = (readersRun s' = readersRun s \<and> readersWait s' = readersWait s)"

text \<open>The state after unlinking a node whose predecessor is \<open>p\<close> and whose successor
  pointer is \<open>n\<close>.\<close>

definition unlinked :: "lock_state \<Rightarrow> addr \<Rightarrow> ptr \<Rightarrow> lock_state" where
  "unlinked s p n =
     (if n = None then s\<lparr>nextf := (nextf s)[p := n], sleepersEnd := Some p\<rparr>
      else s\<lparr>nextf := (nextf s)[p := n]\<rparr>)"

text \<open>
  The invariants that the comment of the class requires whenever nobody holds the mutex,
  for a queue \<open>xs\<close>: the queue is a chain that ends in \<open>nullptr\<close> with \<open>_sleepersEnd\<close> at
  its last alarm clock; phase 0 has an empty queue; phases 1 and 2 have a non-empty
  queue; running readers mean phase 0 or 1.
\<close>

definition lock_inv :: "lock_state \<Rightarrow> addr list \<Rightarrow> bool" where
  "lock_inv s xs =
     (queue_of s xs
      \<and> (phase s = 0 \<longrightarrow> xs = [])
      \<and> (phase s = 1 \<or> phase s = 2 \<longrightarrow> xs \<noteq> [])
      \<and> (0 < sint (readersRun s) \<longrightarrow> phase s = 0 \<or> phase s = 1))"


section \<open>Example states\<close>

text \<open>A lock held by a writer, with \<open>rw\<close> readers waiting and the queue \<open>q\<close> of at most
  one alarm clock.\<close>

definition ex_writing :: "32 word \<Rightarrow> ptr \<Rightarrow> lock_state" where
  "ex_writing rw q = \<lparr> readersRun = 0, readersWait = rw, sleepersStart = q, sleepersEnd = q,
      freeList = None, phase = 3, nextf = [None] \<rparr>"

text \<open>A lock in phase \<open>ph\<close> with \<open>rr\<close> readers running and the one alarm clock \<open>0\<close> in
  the queue.\<close>

definition ex_queued :: "32 word \<Rightarrow> 8 word \<Rightarrow> lock_state" where
  "ex_queued rr ph = \<lparr> readersRun = rr, readersWait = 0, sleepersStart = Some 0,
      sleepersEnd = Some 0, freeList = None, phase = ph, nextf = [None] \<rparr>"

text \<open>A lock held by a writer, with the alarm clocks \<open>0, 1, 2\<close> in the queue and the alarm
  clock \<open>3\<close> in the free-list.\<close>

definition ex_three :: lock_state where
  "ex_three = \<lparr> readersRun = 0, readersWait = 0, sleepersStart = Some 0, sleepersEnd = Some 2,
      freeList = Some 3, phase = 3, nextf = [Some 1, Some 2, None, None] \<rparr>"

text \<open>
  The states of a run from the constructor: a reader takes the lock (\<open>run_r\<close>); a first
  timed writer queues its alarm clock \<open>0\<close> and announces itself (\<open>run_rw\<close>); a second timed
  writer queues its alarm clock \<open>1\<close> behind (\<open>run_rww\<close>); the first writer times out and
  leaves (\<open>run_rw2\<close>); then either the second writer leaves too (\<open>run_stuck1\<close>), or the
  reader releases first (\<open>run_handoff\<close>) and then the second writer leaves (\<open>run_stuck2\<close>).
\<close>

definition run_r :: lock_state where
  "run_r = \<lparr> readersRun = 1, readersWait = 0, sleepersStart = None, sleepersEnd = None,
      freeList = None, phase = 0, nextf = [] \<rparr>"

definition run_rw :: lock_state where
  "run_rw = \<lparr> readersRun = 1, readersWait = 0, sleepersStart = Some 0, sleepersEnd = Some 0,
      freeList = None, phase = 1, nextf = [None] \<rparr>"

definition run_rww :: lock_state where
  "run_rww = \<lparr> readersRun = 1, readersWait = 0, sleepersStart = Some 0, sleepersEnd = Some 1,
      freeList = None, phase = 1, nextf = [Some 1, None] \<rparr>"

definition run_rw2 :: lock_state where
  "run_rw2 = \<lparr> readersRun = 1, readersWait = 0, sleepersStart = Some 1, sleepersEnd = Some 1,
      freeList = None, phase = 1, nextf = [Some 1, None] \<rparr>"

definition run_stuck1 :: lock_state where
  "run_stuck1 = \<lparr> readersRun = 1, readersWait = 0, sleepersStart = None, sleepersEnd = None,
      freeList = None, phase = 1, nextf = [Some 1, None] \<rparr>"

definition run_handoff :: lock_state where
  "run_handoff = \<lparr> readersRun = 0, readersWait = 0, sleepersStart = Some 1, sleepersEnd = Some 1,
      freeList = None, phase = 2, nextf = [Some 1, None] \<rparr>"

definition run_stuck2 :: lock_state where
  "run_stuck2 = \<lparr> readersRun = 0, readersWait = 0, sleepersStart = None, sleepersEnd = None,
      freeList = None, phase = 2, nextf = [Some 1, None] \<rparr>"

text \<open>
  The states of another run from the constructor: a writer holds the lock and a second
  writer has queued its alarm clock \<open>0\<close> (\<open>run_ww\<close>); a reader arrives and waits
  (\<open>run_wwr\<close>); the first writer releases (\<open>run_released\<close>); the reader runs
  (\<open>run_reading\<close>) and releases (\<open>run_idle\<close>).
\<close>

definition run_ww :: lock_state where
  "run_ww = \<lparr> readersRun = 0, readersWait = 0, sleepersStart = Some 0, sleepersEnd = Some 0,
      freeList = None, phase = 3, nextf = [None] \<rparr>"

definition run_wwr :: lock_state where
  "run_wwr = \<lparr> readersRun = 0, readersWait = 1, sleepersStart = Some 0, sleepersEnd = Some 0,
      freeList = None, phase = 3, nextf = [None] \<rparr>"

definition run_released :: lock_state where
  "run_released = \<lparr> readersRun = 0, readersWait = 1, sleepersStart = Some 0, sleepersEnd = Some 0,
      freeList = None, phase = 0, nextf = [None] \<rparr>"

definition run_reading :: lock_state where
  "run_reading = \<lparr> readersRun = 1, readersWait = 0, sleepersStart = Some 0, sleepersEnd = Some 0,
      freeList = None, phase = 0, nextf = [None] \<rparr>"

definition run_idle :: lock_state where
  "run_idle = \<lparr> readersRun = 0, readersWait = 0, sleepersStart = Some 0, sleepersEnd = Some 0,
      freeList = None, phase = 0, nextf = [None] \<rparr>"

section \<open>Chains\<close>

lemma chain_app:
  "chain h p (xs @ ys) q = (\<exists>r. chain h p xs r \<and> chain h r ys q)"
  by (induction xs arbitrary: p) auto

lemma chain_bound: "chain h p xs q \<Longrightarrow> a \<in> set xs \<Longrightarrow> a < length h"
  by (induction xs arbitrary: p) auto

lemma chain_store_other:
  "a \<notin> set xs \<Longrightarrow> chain (h[a := v]) p xs q = chain h p xs q"
  by (induction xs arbitrary: p) auto

lemma chain_grow: "chain h p xs q \<Longrightarrow> chain (h @ g) p xs q"
  by (induction xs arbitrary: p) (auto simp add: nth_append)

lemma chain_unique:
  "chain h p xs None \<Longrightarrow> chain h p ys None \<Longrightarrow> xs = ys"
proof (induction xs arbitrary: p ys)
  case Nil
  then show ?case by (cases ys) auto
next
  case (Cons a as)
  then show ?case by (cases ys) auto
qed

lemma chain_no_repeat:
  assumes "chain h p xs None"
  shows "distinct xs"
  using assms
proof (induction xs arbitrary: p)
  case Nil
  then show ?case by simp
next
  case (Cons a as)
  have tl: "chain h (h ! a) as None" using Cons.prems by simp
  have "a \<notin> set as"
  proof
    assume "a \<in> set as"
    then obtain us vs where split: "as = us @ a # vs" by (auto simp add: in_set_conv_decomp)
    with tl have "chain h (h ! a) vs None" by (auto simp add: chain_app)
    with tl have "as = vs" by (rule chain_unique)
    with split show False by simp
  qed
  with Cons.IH [OF tl] show ?case by simp
qed

lemma removeLoop_absent:
  "chain (nextf s) (Some w) (w # ys) None \<Longrightarrow> a \<notin> set ys \<Longrightarrow>
   removeLoop (Some a) (Some w) s = Some (Inr s)"
proof (induction ys arbitrary: w)
  case Nil
  then show ?case by (simp add: removeLoop.simps [of _ "Some w"] removeLoop.simps [of _ None])
next
  case (Cons y ys)
  from Cons.prems have "chain (nextf s) (Some y) (y # ys) None" "a \<notin> set ys" "a \<noteq> y"
    "w < length (nextf s)" "nextf s ! w = Some y"
    by auto
  with Cons.IH [of y] show ?case
    by (simp add: removeLoop.simps [of _ "Some w"])
qed

section \<open>The release policies\<close>

text \<open>
  Claim C3. On writer release (\<open>unlockWrite\<close>, from phase 3, WRITING): if a reader is
  waiting, the phase becomes 0 (READING) and all waiting readers are woken; else, if the
  writer queue is not empty, the phase becomes 2 (HANDOFF) and only the head of the queue
  is signalled; else the phase becomes 0. Nothing else changes. Waiting readers come
  before a queued writer.
\<close>

theorem unlockWrite_release_policy:
  assumes "phase s = 3"
  shows "(0 < sint (readersWait s) \<longrightarrow>
            unlockWrite s = Inr (s\<lparr>phase := 0\<rparr>, [NotifyAllReaders]))
       \<and> (\<not> 0 < sint (readersWait s) \<and> sleepersStart s = Some h \<and> h < length (nextf s) \<longrightarrow>
            unlockWrite s = Inr (s\<lparr>phase := 2\<rparr>, [NotifyWriter h]))
       \<and> (\<not> 0 < sint (readersWait s) \<and> sleepersStart s = None \<longrightarrow>
            unlockWrite s = Inr (s\<lparr>phase := 0\<rparr>, []))"
  using assms by (simp add: unlockWrite_def unlockWriteWithMutex_def notifyHead_def)

theorem unlockWrite_release_policy_witness:
  "unlockWrite (ex_writing 2 (Some 0)) = Inr (ex_writing 2 (Some 0)\<lparr>phase := 0\<rparr>, [NotifyAllReaders])
   \<and> unlockWrite (ex_writing 0 (Some 0)) = Inr (ex_writing 0 (Some 0)\<lparr>phase := 2\<rparr>, [NotifyWriter 0])
   \<and> unlockWrite (ex_writing 0 None) = Inr (ex_writing 0 None\<lparr>phase := 0\<rparr>, [])"
  using unlockWrite_release_policy [of "ex_writing 2 (Some 0)" 0]
    unlockWrite_release_policy [of "ex_writing 0 (Some 0)" 0]
    unlockWrite_release_policy [of "ex_writing 0 None" 0]
  by (simp add: ex_writing_def)

text \<open>
  On reader release (\<open>unlockRead\<close>) \<open>_readersRun\<close> is decremented. If it reaches zero
  while the phase is 1 (READING_WRITERS_WAITING) and the writer queue has a head, the
  phase becomes 2 (HANDOFF) and that head is signalled; if it does not reach zero, or the
  phase is not 1, only \<open>_readersRun\<close> changes and nobody is woken. If it reaches zero in
  phase 1 and \<open>_sleepersStart\<close> is null, the release dereferences the null pointer.
\<close>

lemma unlockRead_with_head:
  "(readersRun s = 1 \<and> phase s = 1 \<and> sleepersStart s = Some h \<and> h < length (nextf s) \<longrightarrow>
      unlockRead s = Inr (s\<lparr>readersRun := 0, phase := 2\<rparr>, [NotifyWriter h]))
 \<and> (\<not> (readersRun s = 1 \<and> phase s = 1) \<longrightarrow>
      unlockRead s = Inr (s\<lparr>readersRun := readersRun s - 1\<rparr>, []))"
  by (auto simp add: unlockRead_def unlockReadWithMutex_def notifyHead_def Let_def)

lemma unlockRead_with_head_examples:
  "unlockRead (ex_queued 1 1) = Inr (ex_queued 1 1\<lparr>readersRun := 0, phase := 2\<rparr>, [NotifyWriter 0])
   \<and> unlockRead (ex_queued 2 1) = Inr (ex_queued 2 1\<lparr>readersRun := 1\<rparr>, [])
   \<and> unlockRead run_r = Inr (run_r\<lparr>readersRun := 0\<rparr>, [])"
  using unlockRead_with_head [of "ex_queued 1 1" 0]
    unlockRead_with_head [of "ex_queued 2 1" 0]
    unlockRead_with_head [of run_r 0]
  by (simp add: ex_queued_def run_r_def)

lemma unlockRead_without_head:
  assumes "readersRun s = 1" and "phase s = 1" and "sleepersStart s = None"
  shows "unlockRead s = Inl NullDeref"
  using assms by (simp add: unlockRead_def unlockReadWithMutex_def notifyHead_def)

section \<open>The operations that never wait\<close>

text \<open>
  Claim C6. \<open>tryWriteLock()\<close> returns true exactly when the writer queue is empty, the
  phase is 0 (READING) and no reader is running; then its only effect is to set the phase
  to 3 (WRITING). In every other state it returns false and changes nothing; in
  particular it returns false whenever a writer is queued.
\<close>

theorem tryWriteLock_exact:
  "(fst (tryWriteLock s) \<longleftrightarrow> sleepersStart s = None \<and> phase s = 0 \<and> readersRun s = 0)
 \<and> (fst (tryWriteLock s) \<longrightarrow> snd (tryWriteLock s) = s\<lparr>phase := 3\<rparr>)
 \<and> (\<not> fst (tryWriteLock s) \<longrightarrow> snd (tryWriteLock s) = s)
 \<and> (sleepersStart s \<noteq> None \<longrightarrow> tryWriteLock s = (False, s))"
  by (simp add: tryWriteLock_def)

theorem tryWriteLock_exact_witness:
  "tryWriteLock init = (True, init\<lparr>phase := 3\<rparr>)
   \<and> tryWriteLock (ex_queued 0 0) = (False, ex_queued 0 0)
   \<and> tryWriteLock run_r = (False, run_r)"
  using tryWriteLock_exact [of init] tryWriteLock_exact [of "ex_queued 0 0"]
    tryWriteLock_exact [of run_r]
  by (simp add: init_def ex_queued_def run_r_def prod_eq_iff)

text \<open>
  Claim C7. \<open>tryReadLock()\<close> returns true exactly when the phase is 0 (READING), and then
  increments \<open>_readersRun\<close>; otherwise it returns false and changes nothing.
\<close>

theorem tryReadLock_exact:
  "(fst (tryReadLock s) \<longleftrightarrow> phase s = 0)
 \<and> (fst (tryReadLock s) \<longrightarrow> snd (tryReadLock s) = s\<lparr>readersRun := readersRun s + 1\<rparr>)
 \<and> (\<not> fst (tryReadLock s) \<longrightarrow> snd (tryReadLock s) = s)"
  by (simp add: tryReadLock_def)

theorem tryReadLock_exact_witness:
  "tryReadLock run_r = (True, run_r\<lparr>readersRun := 2\<rparr>)
   \<and> tryReadLock run_ww = (False, run_ww)"
  using tryReadLock_exact [of run_r] tryReadLock_exact [of run_ww]
  by (simp add: run_r_def run_ww_def prod_eq_iff)

section \<open>The timed operations\<close>

text \<open>
  Claim C8. When the phase is not 0 (READING) at entry, \<open>tryReadLock(timeout)\<close>
  increments \<open>_readersWait\<close> and sleeps until its deadline. On waking while the phase is
  still not 0: after a timeout it decrements \<open>_readersWait\<close> and returns false, with
  \<open>_readersRun\<close> unchanged; otherwise it sleeps again. On waking in phase 0 it decrements
  \<open>_readersWait\<close>, increments \<open>_readersRun\<close> and returns true, which is what \<open>readLock\<close>
  does on waking in phase 0; and \<open>readLock\<close> registers in the same way at entry.
\<close>

theorem tryReadLock_timed_bookkeeping:
  "(phase s \<noteq> 0 \<longrightarrow>
      tryReadLock_timed timeout now s =
        (Blocked (AwaitReadingUntil (now + timeout)), s\<lparr>readersWait := readersWait s + 1\<rparr>))
 \<and> (phase s \<noteq> 0 \<longrightarrow>
      tryReadLock_timed_wake (AwaitReadingUntil d) Timeout s =
        (Returned False, s\<lparr>readersWait := readersWait s - 1\<rparr>))
 \<and> (phase s \<noteq> 0 \<longrightarrow>
      tryReadLock_timed_wake (AwaitReadingUntil d) NoTimeout s = (Blocked (AwaitReadingUntil d), s))
 \<and> (phase s = 0 \<longrightarrow>
      tryReadLock_timed_wake (AwaitReadingUntil d) st s =
        (Returned True, s\<lparr>readersWait := readersWait s - 1, readersRun := readersRun s + 1\<rparr>)
      \<and> readLock_wake AwaitReading s =
        (Returned (), s\<lparr>readersWait := readersWait s - 1, readersRun := readersRun s + 1\<rparr>))
 \<and> (phase s \<noteq> 0 \<longrightarrow>
      readLock s = (Blocked AwaitReading, s\<lparr>readersWait := readersWait s + 1\<rparr>))"
  by (simp add: tryReadLock_timed_def tryReadLock_timed_wait_def readLock_wait_def readLock_def)

theorem tryReadLock_timed_bookkeeping_witness:
  "tryReadLock_timed 2 10 run_ww = (Blocked (AwaitReadingUntil 12), run_wwr)
   \<and> tryReadLock_timed_wake (AwaitReadingUntil 12) Timeout run_wwr = (Returned False, run_ww)
   \<and> tryReadLock_timed_wake (AwaitReadingUntil 12) NoTimeout run_wwr
        = (Blocked (AwaitReadingUntil 12), run_wwr)
   \<and> tryReadLock_timed_wake (AwaitReadingUntil 12) NoTimeout run_released
        = (Returned True, run_reading)
   \<and> readLock_wake AwaitReading run_released = (Returned (), run_reading)
   \<and> readLock run_ww = (Blocked AwaitReading, run_wwr)"
  using tryReadLock_timed_bookkeeping [of run_ww 2 10 12 NoTimeout]
    tryReadLock_timed_bookkeeping [of run_wwr 2 10 12 NoTimeout]
    tryReadLock_timed_bookkeeping [of run_released 2 10 12 NoTimeout]
  by (simp add: run_ww_def run_wwr_def run_released_def run_reading_def)

text \<open>
  Claim C10. The fast paths of the timed operations do not look at the timeout or at the
  clock: whatever the timeout (zero and negative included) and whatever the clock shows,
  \<open>tryWriteLock(timeout)\<close> returns true at once when the phase is 0 (READING) and no
  reader is running, and \<open>tryReadLock(timeout)\<close> returns true at once when the phase is 0.
\<close>

theorem timed_fast_paths_ignore_deadline:
  "(phase s = 0 \<and> readersRun s = 0 \<longrightarrow>
      tryWriteLock_timed timeout now0 now1 s = Some (Inr (Returned True, s\<lparr>phase := 3\<rparr>, [])))
 \<and> (phase s = 0 \<longrightarrow>
      tryReadLock_timed timeout now s = (Returned True, s\<lparr>readersRun := readersRun s + 1\<rparr>))"
  by (simp add: tryWriteLock_timed_def tryReadLock_timed_def)

theorem timed_fast_paths_ignore_deadline_witness:
  "tryWriteLock_timed (- 1) 100 200 init = Some (Inr (Returned True, init\<lparr>phase := 3\<rparr>, []))
   \<and> tryReadLock_timed 0 100 run_r = (Returned True, run_r\<lparr>readersRun := 2\<rparr>)"
  using timed_fast_paths_ignore_deadline [where s = init and timeout = "- 1" and ?now0.0 = 100 and ?now1.0 = 200]
    timed_fast_paths_ignore_deadline [where s = run_r and timeout = 0 and now = 100]
  by (simp add: init_def run_r_def)

section \<open>Removing an alarm clock from the queue\<close>

lemma removeLoop_present:
  "chain (nextf s) (Some w) (w # pre @ a # post) None \<Longrightarrow> a \<notin> set (w # pre) \<Longrightarrow>
   removeLoop (Some a) (Some w) s = Some (Inr (unlinked s (last (w # pre)) (nextf s ! a)))"
proof (induction pre arbitrary: w)
  case Nil
  then show ?case
    by (simp add: removeLoop.simps [of _ "Some w"] unlinked_def)
next
  case (Cons y pre)
  from Cons.prems have "chain (nextf s) (Some y) (y # pre @ a # post) None" "a \<notin> set (y # pre)"
    "a \<noteq> y" "w < length (nextf s)" "nextf s ! w = Some y"
    by auto
  with Cons.IH [of y] show ?case
    by (simp add: removeLoop.simps [of _ "Some w"])
qed

lemma unlinked_queue:
  assumes q: "queue_of s (w # pre @ a # post)"
  shows "queue_of (unlinked s (last (w # pre)) (nextf s ! a)) (w # pre @ post)"
proof -
  let ?h = "nextf s" and ?p = "last (w # pre)"
  let ?xs = "w # pre @ a # post"
  have ch: "chain ?h (sleepersStart s) ?xs None" using q by (simp add: queue_of_def)
  then have d: "distinct ?xs" by (rule chain_no_repeat)
  have split: "?xs = (butlast (w # pre) @ [?p]) @ a # post"
    by (metis append_butlast_last_id append_Cons list.distinct(1))
  from ch obtain r where
    front: "chain ?h (sleepersStart s) (butlast (w # pre)) (Some ?p)"
    and plen: "?p < length ?h" and pn: "?h ! ?p = Some a"
    and alen: "a < length ?h" and rest: "chain ?h (?h ! a) post None"
    unfolding split by (auto simp add: chain_app)
  have p_front: "?p \<notin> set (butlast (w # pre))" and p_post: "?p \<notin> set post"
    using d unfolding split by auto
  let ?h' = "?h[?p := ?h ! a]"
  have "chain ?h' (sleepersStart s) (butlast (w # pre)) (Some ?p)"
    using front p_front by (simp add: chain_store_other)
  moreover have "chain ?h' (?h' ! ?p) post None"
    using rest p_post plen by (simp add: chain_store_other)
  ultimately have "chain ?h' (sleepersStart s) ((butlast (w # pre) @ [?p]) @ post) None"
    using plen by (auto simp add: chain_app)
  then have new: "chain ?h' (sleepersStart s) (w # pre @ post) None"
    by (metis append_butlast_last_id append_Cons list.distinct(1))
  have "sleepersEnd s = Some (last ?xs)" using q by (simp add: queue_of_def)
  show ?thesis
  proof (cases post)
    case Nil
    then have "?h ! a = None" using rest by simp
    with new Nil show ?thesis by (simp add: queue_of_def unlinked_def)
  next
    case (Cons b bs)
    then have "?h ! a \<noteq> None" using rest by auto
    moreover have "sleepersEnd s = Some (last (w # pre @ post))"
      using q Cons by (simp add: queue_of_def)
    ultimately show ?thesis using new by (auto simp add: queue_of_def unlinked_def)
  qed
qed


lemma unlinked_frame:
  assumes ch: "chain (nextf s) (sleepersStart s) (w # pre @ a # post) None"
  defines "s' \<equiv> unlinked s (last (w # pre)) (nextf s ! a)"
  shows "readersRun s' = readersRun s" "readersWait s' = readersWait s"
    "freeList s' = freeList s" "phase s' = phase s" "sleepersStart s' = sleepersStart s"
    "length (nextf s') = length (nextf s)"
    "nextf s' ! b \<noteq> nextf s ! b \<Longrightarrow>
       nextf s ! b = Some a \<and> b \<in> set (w # pre @ a # post) \<and> nextf s' ! b = nextf s ! a"
proof -
  let ?h = "nextf s" and ?p = "last (w # pre)"
  have split: "w # pre @ a # post = (butlast (w # pre) @ [?p]) @ a # post"
    by (metis append_butlast_last_id append_Cons list.distinct(1))
  from ch have plen: "?p < length ?h" and pn: "?h ! ?p = Some a"
    unfolding split by (auto simp add: chain_app)
  have h': "nextf s' = ?h[?p := ?h ! a]" by (simp add: s'_def unlinked_def)
  show "readersRun s' = readersRun s" "readersWait s' = readersWait s"
    "freeList s' = freeList s" "phase s' = phase s" "sleepersStart s' = sleepersStart s"
    "length (nextf s') = length (nextf s)"
    by (simp_all add: s'_def unlinked_def)
  assume diff: "nextf s' ! b \<noteq> nextf s ! b"
  then have "b = ?p" unfolding h' by (cases "b = ?p") simp_all
  moreover have "?p \<in> set (w # pre @ a # post)" unfolding split by simp
  ultimately show "nextf s ! b = Some a \<and> b \<in> set (w # pre @ a # post) \<and> nextf s' ! b = nextf s ! a"
    using pn plen unfolding h' by simp
qed

lemma removeFromQueue_unlinks:
  assumes q: "queue_of s xs"
  shows "\<exists>s'. removeFromQueue (Some a) s = Some (Inr s')
     \<and> queue_of s' (remove1 a xs)
     \<and> (a \<notin> set xs \<longrightarrow> s' = s)
     \<and> (xs = [a] \<longrightarrow> sleepersStart s' = None \<and> sleepersEnd s' = None)
     \<and> readersRun s' = readersRun s \<and> readersWait s' = readersWait s
     \<and> freeList s' = freeList s \<and> phase s' = phase s
     \<and> length (nextf s') = length (nextf s)
     \<and> (\<forall>b. nextf s' ! b \<noteq> nextf s ! b \<longrightarrow>
           nextf s ! b = Some a \<and> b \<in> set xs \<and> nextf s' ! b = nextf s ! a)"
proof (cases xs)
  case Nil
  with q have "sleepersStart s = None" by (simp add: queue_of_def)
  then have "removeFromQueue (Some a) s = Some (Inr s)"
    by (simp add: removeFromQueue_def removeLoop.simps [of _ None])
  with q Nil show ?thesis by simp
next
  case (Cons x ys)
  with q have start: "sleepersStart s = Some x" and xlen: "x < length (nextf s)"
    and ch: "chain (nextf s) (Some x) (x # ys) None"
    and tl: "chain (nextf s) (nextf s ! x) ys None"
    by (simp_all add: queue_of_def)
  have d: "distinct (x # ys)" using ch by (rule chain_no_repeat)
  show ?thesis
  proof (cases "a = x")
    case True
    let ?n = "nextf s ! x"
    let ?s' = "if ?n = None then s\<lparr>sleepersStart := ?n, sleepersEnd := None\<rparr>
               else s\<lparr>sleepersStart := ?n\<rparr>"
    have run: "removeFromQueue (Some a) s = Some (Inr ?s')"
      using True start xlen by (simp add: removeFromQueue_def)
    have "queue_of ?s' ys"
    proof (cases ys)
      case Nil
      with tl show ?thesis by (simp add: queue_of_def)
    next
      case (Cons y zs)
      with tl have "?n \<noteq> None" by auto
      moreover have "sleepersEnd s = Some (last ys)" using q \<open>xs = x # ys\<close> Cons
        by (simp add: queue_of_def)
      ultimately show ?thesis using tl Cons by (simp add: queue_of_def)
    qed
    moreover have "ys = [] \<longrightarrow> sleepersStart ?s' = None \<and> sleepersEnd ?s' = None"
      using tl by auto
    ultimately show ?thesis using run True Cons by auto
  next
    case False
    then have loop: "removeFromQueue (Some a) s = removeLoop (Some a) (Some x) s"
      using start by (simp add: removeFromQueue_def)
    show ?thesis
    proof (cases "a \<in> set ys")
      case absent: False
      have "removeLoop (Some a) (Some x) s = Some (Inr s)"
        using ch absent by (rule removeLoop_absent)
      moreover have "remove1 a xs = xs" using absent False Cons by (simp add: remove1_idem)
      moreover have "xs \<noteq> [a]" using False Cons by simp
      ultimately show ?thesis using loop q by simp
    next
      case True
      then obtain pre post where split: "ys = pre @ a # post" and first: "a \<notin> set pre"
        by (auto dest: split_list_first)
      let ?s' = "unlinked s (last (x # pre)) (nextf s ! a)"
      have notin: "a \<notin> set (x # pre)" using first False by simp
      have run: "removeLoop (Some a) (Some x) s = Some (Inr ?s')"
        using ch notin unfolding split by (rule removeLoop_present)
      have q': "queue_of ?s' (x # pre @ post)"
        using q unfolding Cons split by (rule unlinked_queue)
      have rm: "remove1 a xs = x # pre @ post"
        using notin first unfolding Cons split by (simp add: remove1_append)
      have ch': "chain (nextf s) (sleepersStart s) (x # pre @ a # post) None"
        using ch start unfolding split by simp
      note fr = unlinked_frame [OF ch']
      have "\<forall>b. nextf ?s' ! b \<noteq> nextf s ! b \<longrightarrow>
           nextf s ! b = Some a \<and> b \<in> set xs \<and> nextf ?s' ! b = nextf s ! a"
        using fr(7) unfolding Cons split by blast
      moreover have "xs \<noteq> [a]" using False Cons by simp
      moreover have "a \<in> set xs" using True Cons by simp
      ultimately show ?thesis
        using loop run q' rm fr(1-6) by simp
    qed
  qed
qed

text \<open>
  Claim C9. \<open>removeFromQueue\<close> returns for every queue and removes exactly the given
  alarm clock: the queue afterwards is the queue before without it (so \<open>_sleepersEnd\<close> is
  the predecessor when the last one is removed, and \<open>_sleepersStart\<close> and \<open>_sleepersEnd\<close>
  are both \<open>nullptr\<close> when the queue becomes empty); the only \<open>next\<close> field written is the
  one of its predecessor, which receives its successor; every other field of the lock is
  unchanged. If the alarm clock is not in the queue, the state is unchanged, and there is
  no fault.
\<close>

theorem removeFromQueue_exact:
  assumes q: "queue_of s xs"
  shows "\<exists>s'. removeFromQueue (Some a) s = Some (Inr s')
     \<and> queue_of s' (remove1 a xs)
     \<and> (a \<notin> set xs \<longrightarrow> s' = s)
     \<and> (xs = [a] \<longrightarrow> sleepersStart s' = None \<and> sleepersEnd s' = None)
     \<and> readersRun s' = readersRun s \<and> readersWait s' = readersWait s
     \<and> freeList s' = freeList s \<and> phase s' = phase s
     \<and> length (nextf s') = length (nextf s)
     \<and> (\<forall>b. nextf s' ! b \<noteq> nextf s ! b \<longrightarrow>
           nextf s ! b = Some a \<and> b \<in> set xs \<and> nextf s' ! b = nextf s ! a)"
  using q by (rule removeFromQueue_unlinks)

theorem removeFromQueue_exact_witness:
  "queue_of ex_three [0, 1, 2]
   \<and> (\<exists>s'. removeFromQueue (Some 1) ex_three = Some (Inr s') \<and> queue_of s' [0, 2])
   \<and> (\<exists>s'. removeFromQueue (Some 2) ex_three = Some (Inr s') \<and> queue_of s' [0, 1])
   \<and> removeFromQueue (Some 3) ex_three = Some (Inr ex_three)"
proof -
  have q: "queue_of ex_three [0, 1, 2]"
    by (simp add: queue_of_def ex_three_def)
  from removeFromQueue_exact [OF q, of 1]
  have mid: "\<exists>s'. removeFromQueue (Some 1) ex_three = Some (Inr s') \<and> queue_of s' [0, 2]"
    by auto
  from removeFromQueue_exact [OF q, of 2]
  have lst: "\<exists>s'. removeFromQueue (Some 2) ex_three = Some (Inr s') \<and> queue_of s' [0, 1]"
    by auto
  from removeFromQueue_exact [OF q, of 3]
  have out: "removeFromQueue (Some 3) ex_three = Some (Inr ex_three)"
    by auto
  from q mid lst out show ?thesis by (intro conjI)
qed

text \<open>The argument has to be an alarm clock: \<open>removeFromQueue(nullptr)\<close> dereferences
  the null pointer, on every queue. No caller passes one, the argument always being what
  \<open>getAlarmClock\<close> returned.\<close>

lemma removeLoop_null_faults:
  "chain (nextf s) (Some w) (w # ys) None \<Longrightarrow> removeLoop None (Some w) s = Some (Inl NullDeref)"
proof (induction ys arbitrary: w)
  case Nil
  then show ?case by (simp add: removeLoop.simps [of _ "Some w"])
next
  case (Cons y ys)
  from Cons.prems have "chain (nextf s) (Some y) (y # ys) None"
    "w < length (nextf s)" "nextf s ! w = Some y"
    by auto
  with Cons.IH [of y] show ?case
    by (simp add: removeLoop.simps [of _ "Some w"])
qed

lemma removeFromQueue_null_faults:
  assumes "queue_of s xs"
  shows "removeFromQueue None s = Some (Inl NullDeref)"
proof (cases xs)
  case Nil
  with assms show ?thesis by (simp add: removeFromQueue_def queue_of_def)
next
  case (Cons x ys)
  with assms have start: "sleepersStart s = Some x"
    and ch: "chain (nextf s) (Some x) (x # ys) None"
    by (simp_all add: queue_of_def)
  from start removeLoop_null_faults [OF ch] show ?thesis by (simp add: removeFromQueue_def)
qed

section \<open>What a timed writer leaves behind when it gives up\<close>

text \<open>Wherever \<open>tryWriteLock(timeout)\<close> gives up after a sleep, its alarm clock is out of
  the queue and the reader counters are as they were.\<close>

lemma tryWriteLock_timed_wake_false_unlinks:
  assumes q: "queue_of s xs"
    and k: "k = AwaitHeadUntil (Some n) d \<or> k = AwaitHandoffUntil (Some n) d"
    and r: "tryWriteLock_timed_wake k st now s = Some (Inr (Returned False, s', evs))"
  shows "queue_of s' (remove1 n xs) \<and> same_readers s s'"
proof -
  from removeFromQueue_unlinks [OF q, of n] obtain s1 where
    rm: "removeFromQueue (Some n) s = Some (Inr s1)" and q1: "queue_of s1 (remove1 n xs)"
    and same: "readersRun s1 = readersRun s" "readersWait s1 = readersWait s"
    by blast
  have q0: "queue_of (s1\<lparr>phase := 0\<rparr>) (remove1 n xs)" using q1 by (simp add: queue_of_def)
  have acq: "\<And>t. tryWriteLock_timed_acquire (Some n) t \<noteq> Some (Inr (Returned False, s', evs))"
    by (auto simp add: tryWriteLock_timed_acquire_def Let_def split: option.splits sum.splits)
  have handoff: "\<And>t w. tryWriteLock_timed_waitHandoff w (Some n) d t = Some (Inr (Returned False, s', evs))
     \<Longrightarrow> phase t \<noteq> 2 \<and> w = Some Timeout \<and> (\<exists>t1. removeFromQueue (Some n) t = Some (Inr t1) \<and> (s' = t1 \<or> s' = t1\<lparr>phase := 0\<rparr>))"
    using acq
    by (auto simp add: tryWriteLock_timed_waitHandoff_def split: if_splits option.splits sum.splits)
  show ?thesis
    using k
  proof
    assume "k = AwaitHandoffUntil (Some n) d"
    with r handoff [of "Some st" s] rm have "s' = s1 \<or> s' = s1\<lparr>phase := 0\<rparr>" by auto
    with q0 q1 same show ?thesis by (auto simp add: same_readers_def)
  next
    assume kh: "k = AwaitHeadUntil (Some n) d"
    show ?thesis
    proof (cases "Some n = sleepersStart s \<and> \<not> now > d")
      case True
      let ?t = "if phase s = 0 then s\<lparr>phase := 1\<rparr> else s"
      from True r kh have "tryWriteLock_timed_waitHandoff None (Some n) d ?t
          = Some (Inr (Returned False, s', evs))"
        by (simp add: tryWriteLock_timed_waitHead_def tryWriteLock_timed_atHead_def)
      from handoff [OF this] show ?thesis by simp
    next
      case False
      with r kh rm have "s' = s1"
        by (auto simp add: tryWriteLock_timed_waitHead_def tryWriteLock_timed_atHead_def
            split: if_splits)
      with q1 same show ?thesis by (simp add: same_readers_def)
    qed
  qed
qed

text \<open>The time-out of the second wait repairs the phase: when the last queued writer
  leaves in phase 1, the phase goes back to 0 and the waiting readers are woken.\<close>

lemma queue_of_start_None: "queue_of s xs \<Longrightarrow> sleepersStart s = None \<longleftrightarrow> xs = []"
  by (cases xs) (auto simp add: queue_of_def)

lemma queue_of_phase: "queue_of (s\<lparr>phase := p\<rparr>) xs = queue_of s xs"
  by (simp add: queue_of_def)

lemma tryWriteLock_timed_handoff_timeout_repairs:
  assumes q: "queue_of s (n # ys)" and p: "phase s \<noteq> 2"
  shows "\<exists>s'. tryWriteLock_timed_wake (AwaitHandoffUntil (Some n) d) Timeout now s
        = Some (Inr (Returned False, s',
             if phase s = 1 \<and> ys = [] \<and> 0 < sint (readersWait s) then [NotifyAllReaders] else []))
     \<and> queue_of s' ys \<and> same_readers s s'
     \<and> phase s' = (if phase s = 1 \<and> ys = [] then 0 else phase s)"
proof -
  from removeFromQueue_unlinks [OF q, of n] obtain s1 where
    rm: "removeFromQueue (Some n) s = Some (Inr s1)" and q1: "queue_of s1 ys"
    and same: "readersRun s1 = readersRun s" "readersWait s1 = readersWait s" "phase s1 = phase s"
    by auto
  have e: "sleepersStart s1 = None \<longleftrightarrow> ys = []" using q1 by (rule queue_of_start_None)
  show ?thesis
  proof (cases "phase s = 1 \<and> ys = []")
    case True
    then have "tryWriteLock_timed_wake (AwaitHandoffUntil (Some n) d) Timeout now s
        = Some (Inr (Returned False, s1\<lparr>phase := 0\<rparr>,
             if 0 < sint (readersWait s) then [NotifyAllReaders] else []))"
      using rm e same p by (simp add: tryWriteLock_timed_waitHandoff_def)
    with True q1 same show ?thesis by (simp add: queue_of_phase same_readers_def)
  next
    case False
    then have "tryWriteLock_timed_wake (AwaitHandoffUntil (Some n) d) Timeout now s
        = Some (Inr (Returned False, s1, []))"
      using rm e same p by (auto simp add: tryWriteLock_timed_waitHandoff_def)
    with False q1 same show ?thesis by (auto simp add: same_readers_def)
  qed
qed

text \<open>The expired deadline found at the head of the queue does not: the alarm clock
  leaves and the phase stays, also when the queue becomes empty.\<close>

lemma tryWriteLock_timed_head_expired_no_repair:
  assumes q: "queue_of s (n # ys)" and late: "now > d"
  shows "\<exists>s'. tryWriteLock_timed_wake (AwaitHeadUntil (Some n) d) st now s
        = Some (Inr (Returned False, s', []))
     \<and> queue_of s' ys \<and> same_readers s s' \<and> phase s' = phase s"
proof -
  from removeFromQueue_unlinks [OF q, of n] obtain s1 where
    rm: "removeFromQueue (Some n) s = Some (Inr s1)" and q1: "queue_of s1 ys"
    and same: "readersRun s1 = readersRun s" "readersWait s1 = readersWait s" "phase s1 = phase s"
    by auto
  have "sleepersStart s = Some n" using q by (simp add: queue_of_def)
  then have "tryWriteLock_timed_wake (AwaitHeadUntil (Some n) d) st now s
        = Some (Inr (Returned False, s1, []))"
    using rm late by (simp add: tryWriteLock_timed_waitHead_def tryWriteLock_timed_atHead_def)
  with q1 same show ?thesis by (simp add: same_readers_def)
qed

text \<open>A timed reader that times out with no other change in between leaves the state it
  found.\<close>

lemma tryReadLock_timed_timeout_restores:
  assumes "phase s \<noteq> 0"
  shows "\<exists>k s1. tryReadLock_timed timeout now s = (Blocked k, s1)
     \<and> tryReadLock_timed_wake k Timeout s1 = (Returned False, s)"
  using assms by (simp add: tryReadLock_timed_def tryReadLock_timed_wait_def)

section \<open>writeLock\<close>

lemma getAlarmClock_lists:
  assumes l: "lock_lists s xs fs"
  shows "\<exists>s1. getAlarmClock s = Inr (Some (node_for s fs), s1)
     \<and> lock_lists s1 xs (tl fs)
     \<and> node_for s fs \<notin> set xs \<and> node_for s fs \<notin> set (tl fs)
     \<and> node_for s fs < length (nextf s1) \<and> nextf s1 ! node_for s fs = None
     \<and> same_readers s s1 \<and> phase s1 = phase s
     \<and> sleepersStart s1 = sleepersStart s \<and> sleepersEnd s1 = sleepersEnd s"
proof (cases fs)
  case Nil
  let ?n = "length (nextf s)"
  let ?s1 = "s\<lparr>nextf := nextf s @ [None]\<rparr>"
  from l Nil have fl: "freeList s = None" by (simp add: lock_lists_def)
  then have run: "getAlarmClock s = Inr (Some ?n, ?s1)" by (simp add: getAlarmClock_def)
  have "chain (nextf s) (sleepersStart s) xs None" using l by (simp add: lock_lists_def queue_of_def)
  then have fresh: "?n \<notin> set xs" and q: "chain (nextf s @ [None]) (sleepersStart s) xs None"
    using chain_bound [of "nextf s" "sleepersStart s" xs None ?n] by (auto intro: chain_grow)
  from q l fl Nil have "lock_lists ?s1 xs []"
    by (simp add: lock_lists_def queue_of_def)
  with run fresh Nil show ?thesis
    by (simp add: node_for_def same_readers_def)
next
  case (Cons f gs)
  let ?h = "nextf s"
  let ?s1 = "s\<lparr>freeList := ?h ! f, nextf := ?h[f := None]\<rparr>"
  from l Cons have fl: "freeList s = Some f" and flen: "f < length ?h"
    and rest: "chain ?h (?h ! f) gs None" and fch: "chain ?h (freeList s) (f # gs) None"
    and fx: "f \<notin> set xs" and disj: "set xs \<inter> set gs = {}"
    and q: "chain ?h (sleepersStart s) xs None"
    by (auto simp add: lock_lists_def queue_of_def)
  have "distinct (f # gs)" using fch by (rule chain_no_repeat)
  then have fg: "f \<notin> set gs" by simp
  have run: "getAlarmClock s = Inr (Some f, ?s1)"
    using fl flen by (simp add: getAlarmClock_def)
  have "lock_lists ?s1 xs gs"
    using l rest q fx fg disj by (simp add: lock_lists_def queue_of_def chain_store_other)
  with run fx fg flen Cons show ?thesis
    by (simp add: node_for_def same_readers_def)
qed

lemma enqueue_lists:
  assumes l: "lock_lists s xs fs" and ne: "xs \<noteq> []"
    and n: "n \<notin> set xs" "n \<notin> set fs" "n < length (nextf s)" "nextf s ! n = None"
  shows "\<exists>s2. st_next s (sleepersEnd s) (Some n) = Inr s2
     \<and> lock_lists (s2\<lparr>sleepersEnd := Some n\<rparr>) (xs @ [n]) fs
     \<and> same_readers s s2 \<and> phase s2 = phase s \<and> sleepersStart s2 = sleepersStart s"
proof -
  let ?h = "nextf s" and ?e = "last xs"
  let ?s2 = "s\<lparr>nextf := ?h[?e := Some n]\<rparr>"
  have xs: "xs = butlast xs @ [?e]" using ne by simp
  from l have endp: "sleepersEnd s = Some ?e" and q: "chain ?h (sleepersStart s) xs None"
    and f: "chain ?h (freeList s) fs None" and disj: "set xs \<inter> set fs = {}"
    using ne by (simp_all add: lock_lists_def queue_of_def)
  have d: "distinct xs" using q by (rule chain_no_repeat)
  from q have front: "chain ?h (sleepersStart s) (butlast xs) (Some ?e)" and elen: "?e < length ?h"
    by (subst (asm) xs, auto simp add: chain_app)+
  have e_front: "?e \<notin> set (butlast xs)" using d by (subst (asm) xs) simp
  have e_fs: "?e \<notin> set fs" using disj last_in_set [OF ne] by auto
  have "?e \<noteq> n" using n(1) ne by auto
  have run: "st_next s (sleepersEnd s) (Some n) = Inr ?s2" using endp elen by simp
  let ?h' = "?h[?e := Some n]"
  have "chain ?h' (sleepersStart s) (butlast xs) (Some ?e)"
    using front e_front by (simp add: chain_store_other)
  moreover have "chain ?h' (?h' ! ?e) [n] None"
    using elen n(3,4) \<open>?e \<noteq> n\<close> by simp
  ultimately have "chain ?h' (sleepersStart s) ((butlast xs @ [?e]) @ [n]) None"
    using elen by (auto simp add: chain_app)
  then have "chain ?h' (sleepersStart s) (xs @ [n]) None" using xs by simp
  moreover have "chain ?h' (freeList s) fs None" using f e_fs by (simp add: chain_store_other)
  ultimately have "lock_lists (?s2\<lparr>sleepersEnd := Some n\<rparr>) (xs @ [n]) fs"
    using disj n(2) by (simp add: lock_lists_def queue_of_def)
  with run show ?thesis by (simp add: same_readers_def)
qed

lemma writeLock_acquire_lists:
  assumes l: "lock_lists s (n # ys) fs"
  shows "\<exists>s'. writeLock_acquire (Some n) s = Some (Inr (Returned (), s', []))
     \<and> lock_lists s' ys (n # fs) \<and> phase s' = 3 \<and> same_readers s s'"
proof -
  let ?h = "nextf s"
  let ?m = "?h ! n"
  let ?s2 = "if ?m = None then s\<lparr>phase := 3, sleepersStart := ?m, sleepersEnd := None\<rparr>
             else s\<lparr>phase := 3, sleepersStart := ?m\<rparr>"
  let ?s3 = "?s2\<lparr>nextf := ?h[n := freeList s], freeList := Some n\<rparr>"
  from l have start: "sleepersStart s = Some n" and nlen: "n < length ?h"
    and q: "chain ?h (sleepersStart s) (n # ys) None" and rest: "chain ?h ?m ys None"
    and f: "chain ?h (freeList s) fs None" and nf: "n \<notin> set fs" and disj: "set ys \<inter> set fs = {}"
    and endp: "sleepersEnd s = Some (last (n # ys))"
    by (auto simp add: lock_lists_def queue_of_def)
  have "distinct (n # ys)" using q by (rule chain_no_repeat)
  then have ny: "n \<notin> set ys" by simp
  have rm: "removeFromQueue (Some n) (s\<lparr>phase := 3\<rparr>) = Some (Inr ?s2)"
    using start nlen by (simp add: removeFromQueue_def)
  have ret: "returnAlarmClock (Some n) ?s2 = Inr ?s3"
    using nlen by (simp add: returnAlarmClock_def)
  have run: "writeLock_acquire (Some n) s = Some (Inr (Returned (), ?s3, []))"
    unfolding writeLock_acquire_def Let_def using start rm ret by simp
  have q': "chain (?h[n := freeList s]) ?m ys None" using rest ny by (simp add: chain_store_other)
  have f': "chain (?h[n := freeList s]) (freeList s) fs None"
    using f nf by (simp add: chain_store_other)
  have "lock_lists ?s3 ys (n # fs)"
  proof (cases ys)
    case Nil
    with rest have "?m = None" by simp
    with q' f' nlen Nil show ?thesis by (simp add: lock_lists_def queue_of_def)
  next
    case (Cons y zs)
    with rest have "?m \<noteq> None" by auto
    with q' f' nlen Cons endp ny nf disj show ?thesis by (simp add: lock_lists_def queue_of_def)
  qed
  with run show ?thesis by (auto simp add: same_readers_def)
qed

lemma writeLock_slow_nonempty:
  assumes l: "lock_lists s xs fs" and slow: "\<not> (phase s = 0 \<and> readersRun s = 0)"
    and ne: "xs \<noteq> []"
  shows "\<exists>s'. writeLock s = Some (Inr (Blocked (AwaitHead (Some (node_for s fs))), s', []))
     \<and> lock_lists s' (xs @ [node_for s fs]) (tl fs)
     \<and> phase s' = phase s \<and> same_readers s s'"
proof -
  let ?n = "node_for s fs"
  from getAlarmClock_lists [OF l] obtain s1 where
    g: "getAlarmClock s = Inr (Some ?n, s1)" and l1: "lock_lists s1 xs (tl fs)"
    and n: "?n \<notin> set xs" "?n \<notin> set (tl fs)" "?n < length (nextf s1)" "nextf s1 ! ?n = None"
    and same1: "same_readers s s1" "phase s1 = phase s"
      "sleepersStart s1 = sleepersStart s" "sleepersEnd s1 = sleepersEnd s"
    by blast
  from enqueue_lists [OF l1 ne n] obtain s2 where
    e: "st_next s1 (sleepersEnd s1) (Some ?n) = Inr s2"
    and l2: "lock_lists (s2\<lparr>sleepersEnd := Some ?n\<rparr>) (xs @ [?n]) (tl fs)"
    and same2: "same_readers s1 s2" "phase s2 = phase s1" "sleepersStart s2 = sleepersStart s1"
    by blast
  from l1 ne have st: "sleepersStart s1 = Some (hd xs)" and en: "sleepersEnd s1 \<noteq> None"
    by (cases xs, auto simp add: lock_lists_def queue_of_def)+
  have "hd xs \<noteq> ?n" using n(1) hd_in_set [OF ne] by auto
  then have "writeLock_waitHead (Some ?n) (s2\<lparr>sleepersEnd := Some ?n\<rparr>)
      = Some (Inr (Blocked (AwaitHead (Some ?n)), s2\<lparr>sleepersEnd := Some ?n\<rparr>, []))"
    using st same2 by (simp add: writeLock_waitHead_def)
  moreover have nofast: "(phase s = 0 \<and> readersRun s = 0) = False" using slow by simp
  ultimately have "writeLock s = Some (Inr (Blocked (AwaitHead (Some ?n)), s2\<lparr>sleepersEnd := Some ?n\<rparr>, []))"
    using g e st en by (simp add: writeLock_def)
  with l2 same1 same2 show ?thesis by (auto simp add: same_readers_def)
qed

lemma writeLock_slow_empty:
  assumes l: "lock_lists s [] fs" and slow: "\<not> (phase s = 0 \<and> readersRun s = 0)"
  shows "\<exists>s1. writeLock s = writeLock_atHead (Some (node_for s fs)) s1
     \<and> sleepersStart s1 = Some (node_for s fs)
     \<and> lock_lists s1 [node_for s fs] (tl fs)
     \<and> phase s1 = phase s \<and> same_readers s s1"
proof -
  let ?n = "node_for s fs"
  from getAlarmClock_lists [OF l] obtain s1 where
    g: "getAlarmClock s = Inr (Some ?n, s1)" and l1: "lock_lists s1 [] (tl fs)"
    and n: "?n \<notin> set (tl fs)" "?n < length (nextf s1)" "nextf s1 ! ?n = None"
    and same1: "same_readers s s1" "phase s1 = phase s"
    by blast
  let ?s2 = "s1\<lparr>sleepersStart := Some ?n, sleepersEnd := Some ?n\<rparr>"
  from l1 have st: "sleepersStart s1 = None" "sleepersEnd s1 = None"
    by (simp_all add: lock_lists_def queue_of_def)
  have nofast: "(phase s = 0 \<and> readersRun s = 0) = False" using slow by simp
  have "writeLock s = writeLock_atHead (Some ?n) ?s2"
    using g st by (simp add: writeLock_def nofast)
  moreover have "lock_lists ?s2 [?n] (tl fs)"
    using l1 n by (simp add: lock_lists_def queue_of_def)
  ultimately show ?thesis using same1 by (auto simp add: same_readers_def)
qed

lemma writeLock_atHead_waits:
  assumes "sleepersStart s = Some n" and "phase s \<noteq> 2"
  shows "writeLock_atHead (Some n) s =
     Some (Inr (Blocked (AwaitHandoff (Some n)), s\<lparr>phase := if phase s = 0 then 1 else phase s\<rparr>, []))"
  using assms by (simp add: writeLock_atHead_def writeLock_waitHandoff_def)

lemma writeLock_atHead_acquires:
  assumes "sleepersStart s = Some n" and "phase s = 2"
  shows "writeLock_atHead (Some n) s = writeLock_acquire (Some n) s"
  using assms by (simp add: writeLock_atHead_def writeLock_waitHandoff_def)

text \<open>
  Claim C5. \<open>writeLock\<close>, on a lock whose queue is \<open>xs\<close> and whose free-list is \<open>fs\<close>.
  If the phase is 0 (READING) and no reader is running, it sets the phase to 3 (WRITING)
  and returns, with no alarm clock taken or queued. Otherwise it takes an alarm clock
  (the head of the free-list, or a new one) and appends it to the queue, or makes it the
  only entry. It sleeps while its alarm clock is not the head of the queue. Once at the
  head, it turns phase 0 into phase 1 (READING_WRITERS_WAITING), and sleeps while the
  phase is not 2 (HANDOFF). Then it sets the phase to 3, removes its alarm clock from the
  head of the queue, puts it on the free-list and returns. The reader counters do not
  change.
\<close>

theorem writeLock_steps:
  assumes l: "lock_lists s xs fs"
  shows
    "(phase s = 0 \<and> readersRun s = 0 \<longrightarrow>
        writeLock s = Some (Inr (Returned (), s\<lparr>phase := 3\<rparr>, [])))
   \<and> (\<not> (phase s = 0 \<and> readersRun s = 0) \<and> xs \<noteq> [] \<longrightarrow>
        (\<exists>s'. writeLock s = Some (Inr (Blocked (AwaitHead (Some (node_for s fs))), s', []))
           \<and> lock_lists s' (xs @ [node_for s fs]) (tl fs)
           \<and> phase s' = phase s \<and> same_readers s s'))
   \<and> (\<not> (phase s = 0 \<and> readersRun s = 0) \<and> xs = [] \<and> phase s \<noteq> 2 \<longrightarrow>
        (\<exists>s'. writeLock s = Some (Inr (Blocked (AwaitHandoff (Some (node_for s fs))), s', []))
           \<and> lock_lists s' [node_for s fs] (tl fs)
           \<and> phase s' = (if phase s = 0 then 1 else phase s) \<and> same_readers s s'))
   \<and> (\<not> (phase s = 0 \<and> readersRun s = 0) \<and> xs = [] \<and> phase s = 2 \<longrightarrow>
        (\<exists>s'. writeLock s = Some (Inr (Returned (), s', []))
           \<and> lock_lists s' [] (node_for s fs # tl fs)
           \<and> phase s' = 3 \<and> same_readers s s'))
   \<and> (xs \<noteq> [] \<and> hd xs \<noteq> n \<longrightarrow>
        writeLock_wake (AwaitHead (Some n)) s = Some (Inr (Blocked (AwaitHead (Some n)), s, [])))
   \<and> (xs \<noteq> [] \<and> hd xs = n \<and> phase s \<noteq> 2 \<longrightarrow>
        writeLock_wake (AwaitHead (Some n)) s =
          Some (Inr (Blocked (AwaitHandoff (Some n)),
                     s\<lparr>phase := if phase s = 0 then 1 else phase s\<rparr>, [])))
   \<and> (phase s \<noteq> 2 \<longrightarrow>
        writeLock_wake (AwaitHandoff (Some n)) s = Some (Inr (Blocked (AwaitHandoff (Some n)), s, [])))
   \<and> (xs \<noteq> [] \<and> hd xs = n \<and> phase s = 2 \<longrightarrow>
        (\<exists>s'. writeLock_wake (AwaitHandoff (Some n)) s = Some (Inr (Returned (), s', []))
           \<and> writeLock_wake (AwaitHead (Some n)) s = Some (Inr (Returned (), s', []))
           \<and> lock_lists s' (tl xs) (n # fs)
           \<and> phase s' = 3 \<and> same_readers s s'))"
proof -
  have fast: "phase s = 0 \<and> readersRun s = 0 \<longrightarrow>
        writeLock s = Some (Inr (Returned (), s\<lparr>phase := 3\<rparr>, []))"
    by (simp add: writeLock_def)
  have queued: "\<not> (phase s = 0 \<and> readersRun s = 0) \<and> xs \<noteq> [] \<longrightarrow>
        (\<exists>s'. writeLock s = Some (Inr (Blocked (AwaitHead (Some (node_for s fs))), s', []))
           \<and> lock_lists s' (xs @ [node_for s fs]) (tl fs)
           \<and> phase s' = phase s \<and> same_readers s s')"
    using writeLock_slow_nonempty [OF l] by blast
  have sole: "\<not> (phase s = 0 \<and> readersRun s = 0) \<and> xs = [] \<and> phase s \<noteq> 2 \<longrightarrow>
        (\<exists>s'. writeLock s = Some (Inr (Blocked (AwaitHandoff (Some (node_for s fs))), s', []))
           \<and> lock_lists s' [node_for s fs] (tl fs)
           \<and> phase s' = (if phase s = 0 then 1 else phase s) \<and> same_readers s s')"
  proof (intro impI, elim conjE)
    assume slow: "\<not> (phase s = 0 \<and> readersRun s = 0)" and e: "xs = []" and p: "phase s \<noteq> 2"
    from writeLock_slow_empty [OF l [unfolded e] slow] obtain s1 where
      w: "writeLock s = writeLock_atHead (Some (node_for s fs)) s1"
      and st: "sleepersStart s1 = Some (node_for s fs)"
      and l1: "lock_lists s1 [node_for s fs] (tl fs)"
      and same: "phase s1 = phase s" "same_readers s s1"
      by blast
    let ?s' = "s1\<lparr>phase := if phase s1 = 0 then 1 else phase s1\<rparr>"
    have "writeLock s = Some (Inr (Blocked (AwaitHandoff (Some (node_for s fs))), ?s', []))"
      using w writeLock_atHead_waits [OF st] p same by simp
    moreover have "lock_lists ?s' [node_for s fs] (tl fs)"
      using l1 by (simp add: lock_lists_def queue_of_def)
    ultimately show "\<exists>s'. writeLock s = Some (Inr (Blocked (AwaitHandoff (Some (node_for s fs))), s', []))
           \<and> lock_lists s' [node_for s fs] (tl fs)
           \<and> phase s' = (if phase s = 0 then 1 else phase s) \<and> same_readers s s'"
      using same by (auto simp add: same_readers_def)
  qed
  have sole_handoff: "\<not> (phase s = 0 \<and> readersRun s = 0) \<and> xs = [] \<and> phase s = 2 \<longrightarrow>
        (\<exists>s'. writeLock s = Some (Inr (Returned (), s', []))
           \<and> lock_lists s' [] (node_for s fs # tl fs)
           \<and> phase s' = 3 \<and> same_readers s s')"
  proof (intro impI, elim conjE)
    assume slow: "\<not> (phase s = 0 \<and> readersRun s = 0)" and e: "xs = []" and p: "phase s = 2"
    from writeLock_slow_empty [OF l [unfolded e] slow] obtain s1 where
      w: "writeLock s = writeLock_atHead (Some (node_for s fs)) s1"
      and st: "sleepersStart s1 = Some (node_for s fs)"
      and l1: "lock_lists s1 [node_for s fs] (tl fs)"
      and same: "phase s1 = phase s" "same_readers s s1"
      by blast
    from writeLock_acquire_lists [OF l1] obtain s' where
      "writeLock_acquire (Some (node_for s fs)) s1 = Some (Inr (Returned (), s', []))"
      "lock_lists s' [] (node_for s fs # tl fs)" "phase s' = 3" "same_readers s1 s'"
      by blast
    then show "\<exists>s'. writeLock s = Some (Inr (Returned (), s', []))
           \<and> lock_lists s' [] (node_for s fs # tl fs)
           \<and> phase s' = 3 \<and> same_readers s s'"
      using w writeLock_atHead_acquires [OF st] p same by (auto simp add: same_readers_def)
  qed
  have start: "xs \<noteq> [] \<longrightarrow> sleepersStart s = Some (hd xs)"
    using l by (cases xs) (auto simp add: lock_lists_def queue_of_def)
  have not_head: "xs \<noteq> [] \<and> hd xs \<noteq> n \<longrightarrow>
        writeLock_wake (AwaitHead (Some n)) s = Some (Inr (Blocked (AwaitHead (Some n)), s, []))"
    using start by (simp add: writeLock_waitHead_def)
  have head: "xs \<noteq> [] \<and> hd xs = n \<and> phase s \<noteq> 2 \<longrightarrow>
        writeLock_wake (AwaitHead (Some n)) s =
          Some (Inr (Blocked (AwaitHandoff (Some n)),
                     s\<lparr>phase := if phase s = 0 then 1 else phase s\<rparr>, []))"
    using start writeLock_atHead_waits [of s n] by (simp add: writeLock_waitHead_def)
  have no_handoff: "phase s \<noteq> 2 \<longrightarrow>
        writeLock_wake (AwaitHandoff (Some n)) s = Some (Inr (Blocked (AwaitHandoff (Some n)), s, []))"
    by (simp add: writeLock_waitHandoff_def)
  have handoff: "xs \<noteq> [] \<and> hd xs = n \<and> phase s = 2 \<longrightarrow>
        (\<exists>s'. writeLock_wake (AwaitHandoff (Some n)) s = Some (Inr (Returned (), s', []))
           \<and> writeLock_wake (AwaitHead (Some n)) s = Some (Inr (Returned (), s', []))
           \<and> lock_lists s' (tl xs) (n # fs)
           \<and> phase s' = 3 \<and> same_readers s s')"
  proof (intro impI, elim conjE)
    assume ne: "xs \<noteq> []" and h: "hd xs = n" and p: "phase s = 2"
    then have "lock_lists s (n # tl xs) fs" using l by (cases xs) auto
    from writeLock_acquire_lists [OF this] obtain s' where
      a: "writeLock_acquire (Some n) s = Some (Inr (Returned (), s', []))"
      and r: "lock_lists s' (tl xs) (n # fs)" "phase s' = 3" "same_readers s s'"
      by blast
    have "writeLock_wake (AwaitHandoff (Some n)) s = writeLock_acquire (Some n) s"
      using p by (simp add: writeLock_waitHandoff_def)
    moreover have "writeLock_wake (AwaitHead (Some n)) s = writeLock_acquire (Some n) s"
      using p start ne h writeLock_atHead_acquires [of s n] by (simp add: writeLock_waitHead_def)
    ultimately show "\<exists>s'. writeLock_wake (AwaitHandoff (Some n)) s = Some (Inr (Returned (), s', []))
           \<and> writeLock_wake (AwaitHead (Some n)) s = Some (Inr (Returned (), s', []))
           \<and> lock_lists s' (tl xs) (n # fs)
           \<and> phase s' = 3 \<and> same_readers s s'"
      using a r by auto
  qed
  show ?thesis
    by (intro conjI fast queued sole sole_handoff not_head head no_handoff handoff)
qed

theorem writeLock_steps_witness:
  "lock_lists ex_three [0, 1, 2] [3]
   \<and> (\<exists>s'. writeLock ex_three = Some (Inr (Blocked (AwaitHead (Some 3)), s', []))
         \<and> lock_lists s' [0, 1, 2, 3] [] \<and> phase s' = 3)
   \<and> writeLock_wake (AwaitHead (Some 1)) ex_three
        = Some (Inr (Blocked (AwaitHead (Some 1)), ex_three, []))
   \<and> (\<exists>s'. writeLock_wake (AwaitHandoff (Some 0)) (ex_three\<lparr>phase := 2\<rparr>)
              = Some (Inr (Returned (), s', []))
         \<and> lock_lists s' [1, 2] [0, 3] \<and> phase s' = 3)"
proof -
  have l: "lock_lists ex_three [0, 1, 2] [3]"
    by (simp add: lock_lists_def queue_of_def ex_three_def)
  have l2: "lock_lists (ex_three\<lparr>phase := 2\<rparr>) [0, 1, 2] [3]"
    by (simp add: lock_lists_def queue_of_def ex_three_def)
  have n: "node_for ex_three [3] = 3" by (simp add: node_for_def)
  have p: "phase ex_three = 3" "phase (ex_three\<lparr>phase := 2\<rparr>) = 2"
    by (simp_all add: ex_three_def)
  from writeLock_steps [OF l, of 1] n p
  have a: "\<exists>s'. writeLock ex_three = Some (Inr (Blocked (AwaitHead (Some 3)), s', []))
         \<and> lock_lists s' [0, 1, 2, 3] [] \<and> phase s' = 3"
    and b: "writeLock_wake (AwaitHead (Some 1)) ex_three
        = Some (Inr (Blocked (AwaitHead (Some 1)), ex_three, []))"
    by auto
  from writeLock_steps [OF l2, of 0] p
  have c: "\<exists>s'. writeLock_wake (AwaitHandoff (Some 0)) (ex_three\<lparr>phase := 2\<rparr>)
              = Some (Inr (Returned (), s', []))
         \<and> lock_lists s' [1, 2] [0, 3] \<and> phase s' = 3"
    by auto
  from l a b c show ?thesis by (intro conjI)
qed

section \<open>The invariants\<close>

text \<open>The constructor establishes the invariants; the operations of readers and
  \<open>tryWriteLock()\<close> keep them.\<close>

lemma lock_inv_init: "lock_inv init []"
  by (simp add: lock_inv_def queue_of_def init_def)

lemma readers_preserve_lock_inv:
  assumes inv: "lock_inv s xs"
  shows "lock_inv (snd (tryReadLock s)) xs"
    and "lock_inv (snd (readLock s)) xs"
    and "lock_inv (snd (readLock_wake k s)) xs"
    and "lock_inv (snd (tryReadLock_timed timeout now s)) xs"
    and "lock_inv (snd (tryReadLock_timed_wake kt st s)) xs"
proof -
  have run: "phase s = 0 \<Longrightarrow> lock_inv (s\<lparr>readersRun := readersRun s + 1\<rparr>) xs"
    and wait: "lock_inv (s\<lparr>readersWait := w\<rparr>) xs"
    and both: "phase s = 0 \<Longrightarrow> lock_inv (s\<lparr>readersWait := w, readersRun := readersRun s + 1\<rparr>) xs"
    for w
    using inv by (auto simp add: lock_inv_def queue_of_def)
  show "lock_inv (snd (tryReadLock s)) xs"
    using inv run by (simp add: tryReadLock_def)
  show "lock_inv (snd (readLock s)) xs"
    using run wait by (simp add: readLock_def readLock_wait_def)
  show "lock_inv (snd (readLock_wake k s)) xs"
    using inv both by (cases k) (simp add: readLock_wait_def)
  show "lock_inv (snd (tryReadLock_timed timeout now s)) xs"
    using run wait by (simp add: tryReadLock_timed_def tryReadLock_timed_wait_def)
  show "lock_inv (snd (tryReadLock_timed_wake kt st s)) xs"
    using inv wait both by (cases kt) (simp add: tryReadLock_timed_wait_def)
qed

lemma tryWriteLock_preserves_lock_inv:
  assumes "lock_inv s xs"
  shows "lock_inv (snd (tryWriteLock s)) xs"
proof (cases "sleepersStart s = None \<and> phase s = 0 \<and> readersRun s = 0")
  case True
  then have "tryWriteLock s = (True, s\<lparr>phase := 3\<rparr>)" by (simp add: tryWriteLock_def)
  moreover have "lock_inv (s\<lparr>phase := 3\<rparr>) xs"
    using assms True by (simp add: lock_inv_def queue_of_def)
  ultimately show ?thesis by simp
next
  case False
  then have "tryWriteLock s = (False, s)" by (auto simp add: tryWriteLock_def)
  with assms show ?thesis by simp
qed

text \<open>\<open>unlockRead\<close>, called by a running reader, keeps them and does not fault.\<close>

lemma unlockRead_preserves_lock_inv:
  assumes "lock_inv s xs" and "0 < sint (readersRun s)"
  shows "\<exists>s' evs. unlockRead s = Inr (s', evs) \<and> lock_inv s' xs"
proof (cases "readersRun s = 1 \<and> phase s = 1")
  case True
  with assms obtain h where "sleepersStart s = Some h" "h < length (nextf s)" "xs \<noteq> []"
    by (cases xs) (auto simp add: lock_inv_def queue_of_def)
  with True assms show ?thesis
    by (simp add: unlockRead_def unlockReadWithMutex_def notifyHead_def lock_inv_def queue_of_def)
next
  case False
  then have "unlockRead s = Inr (s\<lparr>readersRun := readersRun s - 1\<rparr>, [])"
    by (auto simp add: unlockRead_def unlockReadWithMutex_def Let_def)
  with assms show ?thesis by (simp add: lock_inv_def queue_of_def)
qed

text \<open>\<open>unlockWrite\<close> keeps them, unless a reader is waiting while a writer is queued.\<close>

lemma unlockWrite_preserves_lock_inv:
  assumes "lock_inv s xs" and "phase s = 3" and "\<not> (0 < sint (readersWait s) \<and> xs \<noteq> [])"
  shows "\<exists>s' evs. unlockWrite s = Inr (s', evs) \<and> lock_inv s' xs"
proof (cases xs)
  case Nil
  with assms have "sleepersStart s = None" by (simp add: lock_inv_def queue_of_def)
  with assms Nil show ?thesis
    by (simp add: unlockWrite_def unlockWriteWithMutex_def lock_inv_def queue_of_def)
next
  case (Cons h ys)
  with assms have "sleepersStart s = Some h" "h < length (nextf s)" "\<not> 0 < sint (readersWait s)"
    by (auto simp add: lock_inv_def queue_of_def)
  with assms Cons show ?thesis
    by (simp add: unlockWrite_def unlockWriteWithMutex_def notifyHead_def lock_inv_def queue_of_def)
qed


text \<open>The critical sections of writers, on a lock whose free-list is a chain apart from
  the queue: they do not fault, and keep the invariants and the free-list.\<close>

lemma chain_agree:
  "\<forall>b\<in>set xs. h' ! b = h ! b \<Longrightarrow> length h' = length h \<Longrightarrow> chain h' p xs q = chain h p xs q"
  by (induction xs arbitrary: p) auto

lemma removeFromQueue_lists:
  assumes l: "lock_lists s xs fs"
  shows "\<exists>s'. removeFromQueue (Some a) s = Some (Inr s') \<and> lock_lists s' (remove1 a xs) fs
     \<and> phase s' = phase s \<and> same_readers s s'"
proof -
  from l have q: "queue_of s xs" and f: "chain (nextf s) (freeList s) fs None"
    and disj: "set xs \<inter> set fs = {}"
    by (simp_all add: lock_lists_def)
  from removeFromQueue_unlinks [OF q, of a] obtain s' where
    rm: "removeFromQueue (Some a) s = Some (Inr s')" and q': "queue_of s' (remove1 a xs)"
    and same: "readersRun s' = readersRun s" "readersWait s' = readersWait s"
      "freeList s' = freeList s" "phase s' = phase s" "length (nextf s') = length (nextf s)"
    and frame: "\<forall>b. nextf s' ! b \<noteq> nextf s ! b \<longrightarrow> b \<in> set xs"
    by blast
  have "\<forall>b\<in>set fs. nextf s' ! b = nextf s ! b" using frame disj by auto
  from chain_agree [OF this same(5)] have "chain (nextf s') (freeList s') fs None"
    using f same(3) by simp
  moreover have "set (remove1 a xs) \<inter> set fs = {}"
    using disj set_remove1_subset [of a xs] by auto
  ultimately have "lock_lists s' (remove1 a xs) fs" using q' by (simp add: lock_lists_def)
  with rm same show ?thesis by (simp add: same_readers_def)
qed

lemma lock_inv_phase_3:
  assumes "lock_inv s xs" and "queue_of s' ys" and "phase s' = 3" and "same_readers s s'"
    and "phase s = 2 \<or> (phase s = 0 \<and> readersRun s = 0)"
  shows "lock_inv s' ys"
  using assms by (auto simp add: lock_inv_def same_readers_def)

lemma writeLock_preserves_lock_inv:
  assumes inv: "lock_inv s xs" and l: "lock_lists s xs fs"
  shows "\<exists>r s' xs' fs'. writeLock s = Some (Inr (r, s', []))
     \<and> lock_inv s' xs' \<and> lock_lists s' xs' fs'"
proof (cases "phase s = 0 \<and> readersRun s = 0")
  case True
  then have "writeLock s = Some (Inr (Returned (), s\<lparr>phase := 3\<rparr>, []))"
    by (simp add: writeLock_def)
  moreover have "lock_lists (s\<lparr>phase := 3\<rparr>) xs fs"
    using l by (simp add: lock_lists_def queue_of_def)
  moreover have "lock_inv (s\<lparr>phase := 3\<rparr>) xs"
    using inv True by (auto simp add: lock_inv_def queue_of_def)
  ultimately show ?thesis by blast
next
  case slow: False
  show ?thesis
  proof (cases xs)
    case Nil
    from writeLock_slow_empty [OF l [unfolded Nil] slow] obtain s1 where
      w: "writeLock s = writeLock_atHead (Some (node_for s fs)) s1"
      and st: "sleepersStart s1 = Some (node_for s fs)"
      and l1: "lock_lists s1 [node_for s fs] (tl fs)"
      and same: "phase s1 = phase s" "same_readers s s1"
      by blast
    let ?s' = "s1\<lparr>phase := if phase s1 = 0 then 1 else phase s1\<rparr>"
    have p: "phase s1 \<noteq> 2" using inv Nil same by (auto simp add: lock_inv_def)
    have "writeLock s = Some (Inr (Blocked (AwaitHandoff (Some (node_for s fs))), ?s', []))"
      using w writeLock_atHead_waits [OF st p] by simp
    moreover have l': "lock_lists ?s' [node_for s fs] (tl fs)"
      using l1 by (simp add: lock_lists_def queue_of_def)
    moreover have "lock_inv ?s' [node_for s fs]"
      using inv l' same by (auto simp add: lock_inv_def lock_lists_def same_readers_def)
    ultimately show ?thesis by blast
  next
    case (Cons x ys)
    then have ne: "xs \<noteq> []" by simp
    from writeLock_slow_nonempty [OF l slow ne] obtain s' where
      w: "writeLock s = Some (Inr (Blocked (AwaitHead (Some (node_for s fs))), s', []))"
      and l': "lock_lists s' (xs @ [node_for s fs]) (tl fs)"
      and same: "phase s' = phase s" "same_readers s s'"
      by blast
    have "lock_inv s' (xs @ [node_for s fs])"
      using inv l' same ne by (auto simp add: lock_inv_def lock_lists_def same_readers_def)
    with w l' show ?thesis by blast
  qed
qed

lemma writeLock_wake_preserves_lock_inv:
  assumes inv: "lock_inv s xs" and l: "lock_lists s xs fs"
    and k: "k = AwaitHead (Some n) \<and> xs \<noteq> [] \<or> k = AwaitHandoff (Some n) \<and> xs \<noteq> [] \<and> hd xs = n"
  shows "\<exists>r s' xs' fs'. writeLock_wake k s = Some (Inr (r, s', []))
     \<and> lock_inv s' xs' \<and> lock_lists s' xs' fs'"
proof -
  from k have ne: "xs \<noteq> []" by auto
  then have start: "sleepersStart s = Some (hd xs)"
    using l by (cases xs) (auto simp add: lock_lists_def queue_of_def)
  have p0: "phase s \<noteq> 0" using inv ne by (auto simp add: lock_inv_def)
  have stay: "\<And>r. \<exists>s' xs' fs'. Some (Inr (r, s, [])) = Some (Inr (r, s', [])) \<and> lock_inv s' xs' \<and> lock_lists s' xs' fs'"
    using inv l by blast
  have acq: "\<exists>r s' xs' fs'. writeLock_acquire (Some n) s = Some (Inr (r, s', []))
     \<and> lock_inv s' xs' \<and> lock_lists s' xs' fs'" if h: "hd xs = n" and p: "phase s = 2"
  proof -
    have "lock_lists s (n # tl xs) fs" using l ne h by (cases xs) auto
    from writeLock_acquire_lists [OF this] obtain s' where
      a: "writeLock_acquire (Some n) s = Some (Inr (Returned (), s', []))"
      and r: "lock_lists s' (tl xs) (n # fs)" "phase s' = 3" "same_readers s s'"
      by blast
    then have "lock_inv s' (tl xs)"
      using lock_inv_phase_3 [OF inv _ r(2,3)] p by (simp add: lock_lists_def)
    with a r show ?thesis by blast
  qed
  show ?thesis
  proof (cases "phase s = 2")
    case True
    show ?thesis
    proof (cases "hd xs = n")
      case h: True
      have "writeLock_wake k s = writeLock_acquire (Some n) s"
        using k True start h writeLock_atHead_acquires [of s n]
        by (auto simp add: writeLock_waitHead_def writeLock_waitHandoff_def)
      with acq [OF h True] show ?thesis by simp
    next
      case False
      with k start have "writeLock_wake k s = Some (Inr (Blocked (AwaitHead (Some n)), s, []))"
        by (auto simp add: writeLock_waitHead_def)
      with stay show ?thesis by simp
    qed
  next
    case False
    have "s\<lparr>phase := if phase s = 0 then 1 else phase s\<rparr> = s" using p0 by simp
    then have "writeLock_wake k s = Some (Inr (Blocked (AwaitHead (Some n)), s, []))
        \<or> writeLock_wake k s = Some (Inr (Blocked (AwaitHandoff (Some n)), s, []))"
      using k False start writeLock_atHead_waits [of s n, OF _ False]
      by (auto simp add: writeLock_waitHead_def writeLock_waitHandoff_def)
    with stay show ?thesis by auto
  qed
qed


lemma tryWriteLock_timed_acquire_lists:
  assumes l: "lock_lists s (n # ys) fs"
  shows "\<exists>s'. tryWriteLock_timed_acquire (Some n) s = Some (Inr (Returned True, s', []))
     \<and> lock_lists s' ys (n # fs) \<and> phase s' = 3 \<and> same_readers s s'"
proof -
  from writeLock_acquire_lists [OF l] obtain s' where
    a: "writeLock_acquire (Some n) s = Some (Inr (Returned (), s', []))"
    and r: "lock_lists s' ys (n # fs)" "phase s' = 3" "same_readers s s'"
    by blast
  from a have "tryWriteLock_timed_acquire (Some n) s = Some (Inr (Returned True, s', []))"
    by (auto simp add: writeLock_acquire_def tryWriteLock_timed_acquire_def Let_def
        split: if_splits option.splits sum.splits)
  with r show ?thesis by blast
qed

lemma tryWriteLock_timed_slow_nonempty:
  assumes l: "lock_lists s xs fs" and slow: "\<not> (phase s = 0 \<and> readersRun s = 0)"
    and ne: "xs \<noteq> []"
  shows "\<exists>s'. tryWriteLock_timed timeout now0 now1 s
        = Some (Inr (Blocked (AwaitHeadUntil (Some (node_for s fs)) (now0 + timeout)), s', []))
     \<and> lock_lists s' (xs @ [node_for s fs]) (tl fs)
     \<and> phase s' = phase s \<and> same_readers s s'"
proof -
  let ?n = "node_for s fs"
  from getAlarmClock_lists [OF l] obtain s1 where
    g: "getAlarmClock s = Inr (Some ?n, s1)" and l1: "lock_lists s1 xs (tl fs)"
    and n: "?n \<notin> set xs" "?n \<notin> set (tl fs)" "?n < length (nextf s1)" "nextf s1 ! ?n = None"
    and same1: "same_readers s s1" "phase s1 = phase s"
      "sleepersStart s1 = sleepersStart s" "sleepersEnd s1 = sleepersEnd s"
    by blast
  from enqueue_lists [OF l1 ne n] obtain s2 where
    e: "st_next s1 (sleepersEnd s1) (Some ?n) = Inr s2"
    and l2: "lock_lists (s2\<lparr>sleepersEnd := Some ?n\<rparr>) (xs @ [?n]) (tl fs)"
    and same2: "same_readers s1 s2" "phase s2 = phase s1" "sleepersStart s2 = sleepersStart s1"
    by blast
  from l1 ne have st: "sleepersStart s1 = Some (hd xs)"
    by (cases xs) (auto simp add: lock_lists_def queue_of_def)
  have "hd xs \<noteq> ?n" using n(1) hd_in_set [OF ne] by auto
  then have "tryWriteLock_timed_waitHead None (Some ?n) (now0 + timeout) now1 (s2\<lparr>sleepersEnd := Some ?n\<rparr>)
      = Some (Inr (Blocked (AwaitHeadUntil (Some ?n) (now0 + timeout)), s2\<lparr>sleepersEnd := Some ?n\<rparr>, []))"
    using st same2 by (simp add: tryWriteLock_timed_waitHead_def)
  moreover have nofast: "(phase s = 0 \<and> readersRun s = 0) = False" using slow by simp
  ultimately have "tryWriteLock_timed timeout now0 now1 s
      = Some (Inr (Blocked (AwaitHeadUntil (Some ?n) (now0 + timeout)), s2\<lparr>sleepersEnd := Some ?n\<rparr>, []))"
    using g e st by (simp add: tryWriteLock_timed_def)
  with l2 same1 same2 show ?thesis by (auto simp add: same_readers_def)
qed

lemma tryWriteLock_timed_slow_empty:
  assumes l: "lock_lists s [] fs" and slow: "\<not> (phase s = 0 \<and> readersRun s = 0)"
  shows "\<exists>s1. tryWriteLock_timed timeout now0 now1 s
        = tryWriteLock_timed_atHead (Some (node_for s fs)) (now0 + timeout) now1 s1
     \<and> sleepersStart s1 = Some (node_for s fs)
     \<and> lock_lists s1 [node_for s fs] (tl fs)
     \<and> phase s1 = phase s \<and> same_readers s s1"
proof -
  let ?n = "node_for s fs"
  from getAlarmClock_lists [OF l] obtain s1 where
    g: "getAlarmClock s = Inr (Some ?n, s1)" and l1: "lock_lists s1 [] (tl fs)"
    and n: "?n \<notin> set (tl fs)" "?n < length (nextf s1)" "nextf s1 ! ?n = None"
    and same1: "same_readers s s1" "phase s1 = phase s"
    by blast
  let ?s2 = "s1\<lparr>sleepersStart := Some ?n, sleepersEnd := Some ?n\<rparr>"
  from l1 have st: "sleepersStart s1 = None" "sleepersEnd s1 = None"
    by (simp_all add: lock_lists_def queue_of_def)
  have nofast: "(phase s = 0 \<and> readersRun s = 0) = False" using slow by simp
  have "tryWriteLock_timed timeout now0 now1 s
      = tryWriteLock_timed_atHead (Some ?n) (now0 + timeout) now1 ?s2"
    using g st by (simp add: tryWriteLock_timed_def nofast)
  moreover have "lock_lists ?s2 [?n] (tl fs)"
    using l1 n by (simp add: lock_lists_def queue_of_def)
  ultimately show ?thesis using same1 by (auto simp add: same_readers_def)
qed

lemma lock_lists_phase: "lock_lists (s\<lparr>phase := p\<rparr>) xs fs = lock_lists s xs fs"
  by (simp add: lock_lists_def queue_of_def)

lemma tryWriteLock_timed_preserves_lock_inv:
  assumes inv: "lock_inv s xs" and l: "lock_lists s xs fs"
  shows "\<exists>r s' xs' fs'. tryWriteLock_timed timeout now0 now1 s = Some (Inr (r, s', []))
     \<and> lock_inv s' xs' \<and> lock_lists s' xs' fs'"
proof (cases "phase s = 0 \<and> readersRun s = 0")
  case True
  then have "tryWriteLock_timed timeout now0 now1 s = Some (Inr (Returned True, s\<lparr>phase := 3\<rparr>, []))"
    by (simp add: tryWriteLock_timed_def)
  moreover have "lock_lists (s\<lparr>phase := 3\<rparr>) xs fs"
    using l by (simp add: lock_lists_phase)
  moreover have "lock_inv (s\<lparr>phase := 3\<rparr>) xs"
    using inv True by (auto simp add: lock_inv_def queue_of_def)
  ultimately show ?thesis by blast
next
  case slow: False
  show ?thesis
  proof (cases xs)
    case Nil
    let ?n = "node_for s fs" and ?d = "now0 + timeout"
    from tryWriteLock_timed_slow_empty [OF l [unfolded Nil] slow] obtain s1 where
      w: "tryWriteLock_timed timeout now0 now1 s = tryWriteLock_timed_atHead (Some ?n) ?d now1 s1"
      and st: "sleepersStart s1 = Some ?n"
      and l1: "lock_lists s1 [?n] (tl fs)"
      and same: "phase s1 = phase s" "same_readers s s1"
      by blast
    have p: "phase s1 \<noteq> 1" "phase s1 \<noteq> 2" using inv Nil same by (auto simp add: lock_inv_def)
    show ?thesis
    proof (cases "now1 > ?d")
      case True
      from removeFromQueue_lists [OF l1, of ?n] obtain s2 where
        rm: "removeFromQueue (Some ?n) s1 = Some (Inr s2)" and l2: "lock_lists s2 [] (tl fs)"
        and same2: "phase s2 = phase s1" "same_readers s1 s2"
        by auto
      have "tryWriteLock_timed timeout now0 now1 s = Some (Inr (Returned False, s2, []))"
        using w st rm True by (simp add: tryWriteLock_timed_atHead_def)
      moreover have "lock_inv s2 []"
        using inv l2 same same2 p by (auto simp add: lock_inv_def lock_lists_def same_readers_def)
      ultimately show ?thesis using l2 by blast
    next
      case False
      let ?s' = "s1\<lparr>phase := if phase s1 = 0 then 1 else phase s1\<rparr>"
      have "tryWriteLock_timed timeout now0 now1 s
          = Some (Inr (Blocked (AwaitHandoffUntil (Some ?n) ?d), ?s', []))"
        using w st False p
        by (simp add: tryWriteLock_timed_atHead_def tryWriteLock_timed_waitHandoff_def)
      moreover have l': "lock_lists ?s' [?n] (tl fs)" using l1 by (simp add: lock_lists_phase)
      moreover have "lock_inv ?s' [?n]"
        using inv l' same by (auto simp add: lock_inv_def lock_lists_def same_readers_def)
      ultimately show ?thesis by blast
    qed
  next
    case (Cons x ys)
    then have ne: "xs \<noteq> []" by simp
    from tryWriteLock_timed_slow_nonempty [OF l slow ne] obtain s' where
      w: "tryWriteLock_timed timeout now0 now1 s
        = Some (Inr (Blocked (AwaitHeadUntil (Some (node_for s fs)) (now0 + timeout)), s', []))"
      and l': "lock_lists s' (xs @ [node_for s fs]) (tl fs)"
      and same: "phase s' = phase s" "same_readers s s'"
      by blast
    have "lock_inv s' (xs @ [node_for s fs])"
      using inv l' same ne by (auto simp add: lock_inv_def lock_lists_def same_readers_def)
    with w l' show ?thesis by blast
  qed
qed


text \<open>A timed writer that wakes up keeps them, unless it finds its deadline expired as
  the only entry of the queue in phase 1 or 2.\<close>

lemma tryWriteLock_timed_wake_preserves_lock_inv:
  assumes inv: "lock_inv s xs" and l: "lock_lists s xs fs" and ne: "xs \<noteq> []"
    and k: "k = AwaitHeadUntil (Some n) d \<or> k = AwaitHandoffUntil (Some n) d \<and> hd xs = n"
    and repaired: "\<not> (k = AwaitHeadUntil (Some n) d \<and> hd xs = n \<and> now > d
                      \<and> tl xs = [] \<and> (phase s = 1 \<or> phase s = 2))"
  shows "\<exists>r s' evs xs' fs'. tryWriteLock_timed_wake k st now s = Some (Inr (r, s', evs))
     \<and> lock_inv s' xs' \<and> lock_lists s' xs' fs'"
proof -
  have start: "sleepersStart s = Some (hd xs)"
    using l ne by (cases xs) (auto simp add: lock_lists_def queue_of_def)
  have p0: "phase s \<noteq> 0" using inv ne by (auto simp add: lock_inv_def)
  from removeFromQueue_lists [OF l, of n] obtain s1 where
    rm: "removeFromQueue (Some n) s = Some (Inr s1)" and l1: "lock_lists s1 (remove1 n xs) fs"
    and same1: "phase s1 = phase s" "same_readers s s1"
    by auto
  have e1: "sleepersStart s1 = None \<longleftrightarrow> remove1 n xs = []"
    using l1 by (simp add: lock_lists_def queue_of_start_None)
  have rest: "remove1 n xs = (if hd xs = n then tl xs else hd xs # remove1 n (tl xs))"
    using ne by (cases xs) auto
  have stay: "\<exists>s' xs' fs'. Some (Inr (r, s, evs)) = Some (Inr (r, s', evs))
      \<and> lock_inv s' xs' \<and> lock_lists s' xs' fs'" for r :: "(bool, wwait_timed) outcome" and evs :: "event list"
    using inv l by blast
  have left: "lock_inv s1 (remove1 n xs)"
    if "phase s = 1 \<or> phase s = 2 \<Longrightarrow> remove1 n xs \<noteq> []"
    using that inv l1 same1 p0 by (auto simp add: lock_inv_def lock_lists_def same_readers_def)
  have acq: "\<exists>r s' evs xs' fs'. tryWriteLock_timed_acquire (Some n) s = Some (Inr (r, s', evs))
     \<and> lock_inv s' xs' \<and> lock_lists s' xs' fs'" if h: "hd xs = n" and p: "phase s = 2"
  proof -
    have "lock_lists s (n # tl xs) fs" using l ne h by (cases xs) auto
    from tryWriteLock_timed_acquire_lists [OF this] obtain s' where
      a: "tryWriteLock_timed_acquire (Some n) s = Some (Inr (Returned True, s', []))"
      and r: "lock_lists s' (tl xs) (n # fs)" "phase s' = 3" "same_readers s s'"
      by blast
    then have "lock_inv s' (tl xs)"
      using lock_inv_phase_3 [OF inv _ r(2,3)] p by (simp add: lock_lists_def)
    with a r show ?thesis by blast
  qed
  have handoff: "\<exists>r s' evs xs' fs'. tryWriteLock_timed_waitHandoff w (Some n) d s = Some (Inr (r, s', evs))
     \<and> lock_inv s' xs' \<and> lock_lists s' xs' fs'" if h: "hd xs = n" for w
  proof (cases "phase s = 2")
    case True
    with acq [OF h True] show ?thesis by (simp add: tryWriteLock_timed_waitHandoff_def)
  next
    case p2: False
    show ?thesis
    proof (cases "w = Some Timeout")
      case False
      with p2 stay show ?thesis by (simp add: tryWriteLock_timed_waitHandoff_def)
    next
      case True
      show ?thesis
      proof (cases "phase s = 1 \<and> tl xs = []")
        case last: True
        let ?evs = "if 0 < sint (readersWait s1) then [NotifyAllReaders] else []"
        have "tryWriteLock_timed_waitHandoff w (Some n) d s
            = Some (Inr (Returned False, s1\<lparr>phase := 0\<rparr>, ?evs))"
          using True p2 rm e1 rest h last same1
          by (simp add: tryWriteLock_timed_waitHandoff_def)
        moreover have "lock_lists (s1\<lparr>phase := 0\<rparr>) [] fs"
          using l1 rest h last by (simp add: lock_lists_phase)
        moreover have "lock_inv (s1\<lparr>phase := 0\<rparr>) []"
          using inv l1 rest h last same1
          by (auto simp add: lock_inv_def lock_lists_def queue_of_def same_readers_def)
        ultimately show ?thesis by blast
      next
        case False
        then have "tryWriteLock_timed_waitHandoff w (Some n) d s
            = Some (Inr (Returned False, s1, []))"
          using True p2 rm e1 rest h same1
          by (auto simp add: tryWriteLock_timed_waitHandoff_def)
        moreover have "lock_inv s1 (remove1 n xs)"
          using left False p2 rest h by auto
        ultimately show ?thesis using l1 by blast
      qed
    qed
  qed
  show ?thesis
  proof (cases "k = AwaitHeadUntil (Some n) d")
    case False
    with k have "k = AwaitHandoffUntil (Some n) d" "hd xs = n" by auto
    with handoff [of "Some st"] show ?thesis by simp
  next
    case kh: True
    show ?thesis
    proof (cases "hd xs = n")
      case False
      show ?thesis
      proof (cases st)
        case NoTimeout
        with kh False start stay show ?thesis by (simp add: tryWriteLock_timed_waitHead_def)
      next
        case Timeout
        with kh False start rm
        have "tryWriteLock_timed_wake k st now s = Some (Inr (Returned False, s1, []))"
          by (simp add: tryWriteLock_timed_waitHead_def)
        moreover have "lock_inv s1 (remove1 n xs)" using left rest False by simp
        ultimately show ?thesis using l1 by blast
      qed
    next
      case h: True
      show ?thesis
      proof (cases "now > d")
        case True
        with kh h start rm
        have "tryWriteLock_timed_wake k st now s = Some (Inr (Returned False, s1, []))"
          by (simp add: tryWriteLock_timed_waitHead_def tryWriteLock_timed_atHead_def)
        moreover have "lock_inv s1 (remove1 n xs)"
          using left repaired kh h True rest by auto
        ultimately show ?thesis using l1 by blast
      next
        case False
        with kh h start p0
        have "tryWriteLock_timed_wake k st now s = tryWriteLock_timed_waitHandoff None (Some n) d s"
          by (simp add: tryWriteLock_timed_waitHead_def tryWriteLock_timed_atHead_def)
        with handoff [OF h, of None] show ?thesis by simp
      qed
    qed
  qed
qed

section \<open>Runs that end outside the invariants\<close>

text \<open>The states in which the two runs below make their last step satisfy the
  invariants; the states they end in satisfy them for no queue.\<close>

lemma runs_start_inside:
  "lock_inv run_wwr [0]" "lock_inv run_rw2 [1]" "lock_inv run_handoff [1]"
  by (simp_all add: lock_inv_def queue_of_def run_wwr_def run_rw2_def run_handoff_def)

lemma runs_end_outside:
  "\<not> lock_inv run_released xs" "\<not> lock_inv run_stuck1 xs" "\<not> lock_inv run_stuck2 xs"
  by (cases xs; simp add: lock_inv_def queue_of_def run_released_def run_stuck1_def
        run_stuck2_def)+

text \<open>
  Claim C1 says that a timed acquisition that returns false leaves the lock as if the call
  had not been made: the alarm clock unlinked, the reader counters as before, and the
  phase not left in 1 (READING_WRITERS_WAITING) or 2 (HANDOFF) with an empty writer queue.
  The code does not do this when the deadline is found expired at the second reading
  of the clock in \<open>tryWriteLock(timeout)\<close>: it unlinks the alarm clock and returns
  false without the repair of the phase that the timeout of the second wait makes.
  The run: from the constructor, a reader takes the lock; a writer calls
  \<open>tryWriteLock(5)\<close> at time 0, queues alarm clock 0, sets phase 1 and sleeps; a second
  writer calls \<open>tryWriteLock(5)\<close> at time 1, queues alarm clock 1 and sleeps; the first
  writer times out and returns false, and the phase stays 1 since the queue is not empty;
  the second writer times out, finds itself at the head, reads the clock at time 7 after
  its deadline 6, and returns false. The phase is 1, the queue is empty, and the release
  of the reader dereferences the null \<open>_sleepersStart\<close>.
\<close>

theorem tryWriteLock_timed_expired_at_head_leaves_phase_1:
  "readLock init = (Returned (), run_r)
   \<and> tryWriteLock_timed 5 0 0 run_r
        = Some (Inr (Blocked (AwaitHandoffUntil (Some 0) 5), run_rw, []))
   \<and> tryWriteLock_timed 5 1 1 run_rw
        = Some (Inr (Blocked (AwaitHeadUntil (Some 1) 6), run_rww, []))
   \<and> tryWriteLock_timed_wake (AwaitHandoffUntil (Some 0) 5) Timeout 5 run_rww
        = Some (Inr (Returned False, run_rw2, []))
   \<and> tryWriteLock_timed_wake (AwaitHeadUntil (Some 1) 6) Timeout 7 run_rw2
        = Some (Inr (Returned False, run_stuck1, []))
   \<and> phase run_stuck1 = 1 \<and> sleepersStart run_stuck1 = None \<and> sleepersEnd run_stuck1 = None
   \<and> unlockRead run_stuck1 = Inl NullDeref"
  by (simp add: init_def run_r_def run_rw_def run_rww_def run_rw2_def run_stuck1_def
      readLock_def tryWriteLock_timed_def tryWriteLock_timed_atHead_def
      tryWriteLock_timed_waitHead_def tryWriteLock_timed_waitHandoff_def
      getAlarmClock_def removeFromQueue_def unlockRead_def unlockReadWithMutex_def
      notifyHead_def)

text \<open>
  Claim C2 says that every public operation preserves the invariants: phase 0 (READING)
  implies an empty writer queue; phase 1 or 2 implies a non-empty writer queue; a running
  reader implies phase 0 or 1; the tail pointer is the last element of the queue. The
  code breaks the first in \<open>unlockWrite\<close> and the second in \<open>tryWriteLock(timeout)\<close>.
  First run: from the constructor, a writer takes the lock; a second writer calls
  \<open>writeLock\<close>, queues alarm clock 0 and sleeps until phase 2; a reader calls \<open>readLock\<close>
  and waits; the first writer calls \<open>unlockWrite\<close>, which sets phase 0 with the alarm
  clock still queued. The reader then runs and releases without any hand-off, the queued
  writer stays asleep on an idle lock, and \<open>tryWriteLock()\<close> fails on it.
  Second run: as for claim C1 up to the time-out of the first timed writer; then the
  reader releases, which sets phase 2 and signals alarm clock 1; the second timed writer
  wakes at the head, reads the clock at time 7 after its deadline 6, unlinks its alarm
  clock and returns false: phase 2 with an empty queue.
\<close>

theorem unlockWrite_and_tryWriteLock_timed_break_invariants:
  "writeLock init = Some (Inr (Returned (), init\<lparr>phase := 3\<rparr>, []))
   \<and> writeLock (init\<lparr>phase := 3\<rparr>) = Some (Inr (Blocked (AwaitHandoff (Some 0)), run_ww, []))
   \<and> readLock run_ww = (Blocked AwaitReading, run_wwr)
   \<and> unlockWrite run_wwr = Inr (run_released, [NotifyAllReaders])
   \<and> phase run_released = 0 \<and> sleepersStart run_released = Some 0
   \<and> readLock_wake AwaitReading run_released = (Returned (), run_reading)
   \<and> unlockRead run_reading = Inr (run_idle, [])
   \<and> writeLock_wake (AwaitHandoff (Some 0)) run_idle
        = Some (Inr (Blocked (AwaitHandoff (Some 0)), run_idle, []))
   \<and> tryWriteLock run_idle = (False, run_idle)
   \<and> readLock init = (Returned (), run_r)
   \<and> tryWriteLock_timed 5 0 0 run_r
        = Some (Inr (Blocked (AwaitHandoffUntil (Some 0) 5), run_rw, []))
   \<and> tryWriteLock_timed 5 1 1 run_rw
        = Some (Inr (Blocked (AwaitHeadUntil (Some 1) 6), run_rww, []))
   \<and> tryWriteLock_timed_wake (AwaitHandoffUntil (Some 0) 5) Timeout 5 run_rww
        = Some (Inr (Returned False, run_rw2, []))
   \<and> unlockRead run_rw2 = Inr (run_handoff, [NotifyWriter 1])
   \<and> tryWriteLock_timed_wake (AwaitHeadUntil (Some 1) 6) NoTimeout 7 run_handoff
        = Some (Inr (Returned False, run_stuck2, []))
   \<and> phase run_stuck2 = 2 \<and> sleepersStart run_stuck2 = None"
  by (simp add: init_def run_ww_def run_wwr_def run_released_def run_reading_def run_idle_def
      run_r_def run_rw_def run_rww_def run_rw2_def run_handoff_def run_stuck2_def
      readLock_def readLock_wait_def writeLock_def writeLock_atHead_def
      writeLock_waitHandoff_def tryWriteLock_def tryWriteLock_timed_def
      tryWriteLock_timed_atHead_def tryWriteLock_timed_waitHead_def
      tryWriteLock_timed_waitHandoff_def getAlarmClock_def removeFromQueue_def
      unlockWrite_def unlockWriteWithMutex_def unlockRead_def unlockReadWithMutex_def
      notifyHead_def)

text \<open>
  Claim C4 says that on reader release (\<open>unlockRead\<close>) \<open>_readersRun\<close> is decremented,
  that the phase becomes 2 (HANDOFF) and the head of the writer queue is signalled
  exactly when the count reaches zero in phase 1 (READING_WRITERS_WAITING), and that in
  every other case only \<open>_readersRun\<close> changes. The code does this whenever the queue has
  a head in phase 1, which the comment of the class promises. It does not on the run of
  claim C1: the two timed writers have left, the phase is 1, \<open>_sleepersStart\<close> is null and
  one reader is running. Its release brings the count to zero in phase 1, sets the phase
  to 2 and then dereferences the null \<open>_sleepersStart\<close> for the signal: no head is
  signalled and the release does not return.
\<close>

theorem unlockRead_after_expired_tryWriteLock_timed_faults:
  "readLock init = (Returned (), run_r)
   \<and> tryWriteLock_timed 5 0 0 run_r
        = Some (Inr (Blocked (AwaitHandoffUntil (Some 0) 5), run_rw, []))
   \<and> tryWriteLock_timed 5 1 1 run_rw
        = Some (Inr (Blocked (AwaitHeadUntil (Some 1) 6), run_rww, []))
   \<and> tryWriteLock_timed_wake (AwaitHandoffUntil (Some 0) 5) Timeout 5 run_rww
        = Some (Inr (Returned False, run_rw2, []))
   \<and> tryWriteLock_timed_wake (AwaitHeadUntil (Some 1) 6) Timeout 7 run_rw2
        = Some (Inr (Returned False, run_stuck1, []))
   \<and> readersRun run_stuck1 = 1 \<and> phase run_stuck1 = 1
   \<and> unlockRead run_stuck1 = Inl NullDeref
   \<and> unlock run_stuck1 = Inl NullDeref"
  by (simp add: init_def run_r_def run_rw_def run_rww_def run_rw2_def run_stuck1_def
      readLock_def tryWriteLock_timed_def tryWriteLock_timed_atHead_def
      tryWriteLock_timed_waitHead_def tryWriteLock_timed_waitHandoff_def
      getAlarmClock_def removeFromQueue_def unlock_def unlockRead_def unlockReadWithMutex_def
      notifyHead_def)

end
